theory Spec2Isabelle
  imports Main "HOL-Library.Word" "HOL-Library.Multiset" "HOL-Library.Char_ord"
    "HOL-Library.List_Lexorder"
begin

section \<open>The Barretenberg backend binding of noir\_js\<close>

text \<open>
  A shallow embedding of \<^verbatim>\<open>tooling/noir_js_backend_barretenberg/src/index.ts\<close>.
  A \<^verbatim>\<open>Uint8Array\<close> is a list of 8-bit words. A JavaScript string is a \<^typ>\<open>string\<close>: each
  \<^typ>\<open>char\<close> stands for one UTF-16 code unit below 256, which covers every string the
  functions below build themselves (hexadecimal and decimal digits, \<^verbatim>\<open>0x\<close>, \<^verbatim>\<open>-\<close>).
  An exception of the source is the left summand of a result.
\<close>

type_synonym byte = "8 word"
type_synonym bytes = "byte list"

datatype error = TypeError | SyntaxError | RangeError | NativeError string

subsection \<open>Numbers and strings of the language\<close>

text \<open>
  \<^verbatim>\<open>Number.prototype.toString(radix)\<close> and \<^verbatim>\<open>BigInt.prototype.toString(radix)\<close> write a
  non-negative integer with the digits \<^verbatim>\<open>0-9a-z\<close>, most significant first and without
  leading zeros.
\<close>

definition digitChar :: "nat \<Rightarrow> char" where
  "digitChar d = (if d < 10 then char_of (48 + d) else char_of (87 + d))"

function toRadixString :: "nat \<Rightarrow> nat \<Rightarrow> string" where
  "toRadixString r n =
     (if r < 2 \<or> n < r then [digitChar n]
      else toRadixString r (n div r) @ [digitChar (n mod r)])"
  by pat_completeness auto
termination
  by (relation "measure (\<lambda>(r, n). n)") auto

declare toRadixString.simps [simp del]

text \<open>\<^verbatim>\<open>i.toString(16)\<close> on a number, \<^verbatim>\<open>String(i)\<close> as the default sort applies it.\<close>

definition numberToString :: "nat \<Rightarrow> nat \<Rightarrow> string" where
  "numberToString radix i = toRadixString radix i"

text \<open>\<^verbatim>\<open>v.toString(16)\<close> on a BigInt: a minus sign before the digits of a negative value.\<close>

definition bigintToString :: "nat \<Rightarrow> int \<Rightarrow> string" where
  "bigintToString radix v =
     (if v < 0 then CHR ''-'' # toRadixString radix (nat (- v))
      else toRadixString radix (nat v))"

text \<open>\<^verbatim>\<open>s.padStart(n, c)\<close> with a one-character filler.\<close>

definition padStart :: "nat \<Rightarrow> char \<Rightarrow> string \<Rightarrow> string" where
  "padStart n c s = replicate (n - length s) c @ s"

text \<open>\<^verbatim>\<open>s.slice(j, k)\<close> for indices that are not negative.\<close>

definition stringSlice :: "string \<Rightarrow> nat \<Rightarrow> nat \<Rightarrow> string" where
  "stringSlice s j k = take (k - j) (drop j s)"

text \<open>
  The white space that \<^verbatim>\<open>BigInt\<close> and \<^verbatim>\<open>parseInt\<close> strip, among the code units below 256:
  TAB, LF, VT, FF, CR, SP and NBSP.
\<close>

definition isWhiteSpace :: "char \<Rightarrow> bool" where
  "isWhiteSpace c = (of_char c \<in> {9, 10, 11, 12, 13, 32, 160 :: nat})"

definition trimStart :: "string \<Rightarrow> string" where
  "trimStart s = dropWhile isWhiteSpace s"

definition trimString :: "string \<Rightarrow> string" where
  "trimString s = rev (dropWhile isWhiteSpace (rev (dropWhile isWhiteSpace s)))"

text \<open>The value of a digit character, in any radix up to 36 and in either case.\<close>

definition digitValue :: "char \<Rightarrow> nat option" where
  "digitValue c =
     (let n = of_char c :: nat in
      if 48 \<le> n \<and> n \<le> 57 then Some (n - 48)
      else if 97 \<le> n \<and> n \<le> 122 then Some (n - 87)
      else if 65 \<le> n \<and> n \<le> 90 then Some (n - 55)
      else None)"

definition isRadixDigit :: "nat \<Rightarrow> char \<Rightarrow> bool" where
  "isRadixDigit r c = (case digitValue c of None \<Rightarrow> False | Some d \<Rightarrow> d < r)"

text \<open>The mathematical value of a run of digits; \<open>None\<close> when a character is no digit of the radix.\<close>

fun digitsToNat :: "nat \<Rightarrow> nat \<Rightarrow> string \<Rightarrow> nat option" where
  "digitsToNat r acc [] = Some acc"
| "digitsToNat r acc (c # cs) =
     (case digitValue c of
        None \<Rightarrow> None
      | Some d \<Rightarrow> if d < r then digitsToNat r (acc * r + d) cs else None)"

definition digitsLiteral :: "nat \<Rightarrow> string \<Rightarrow> nat option" where
  "digitsLiteral r ds = (if ds = [] then None else digitsToNat r 0 ds)"

text \<open>
  \<^verbatim>\<open>StringToBigInt\<close> of the language: white space is trimmed, the empty string is zero, a
  \<^verbatim>\<open>0x\<close>, \<^verbatim>\<open>0o\<close> or \<^verbatim>\<open>0b\<close> prefix selects the radix (no sign allowed), and anything
  else must be decimal digits with an optional sign. \<open>None\<close> is the \<^verbatim>\<open>undefined\<close> on which
  \<^verbatim>\<open>BigInt(string)\<close> throws a SyntaxError.
\<close>

definition signedInteger :: "string \<Rightarrow> int option" where
  "signedInteger t =
     (case t of
        [] \<Rightarrow> None
      | c # ds \<Rightarrow>
          if c = CHR ''+'' then map_option int (digitsLiteral 10 ds)
          else if c = CHR ''-'' then map_option (\<lambda>n. - int n) (digitsLiteral 10 ds)
          else map_option int (digitsLiteral 10 t))"

definition StringToBigInt :: "string \<Rightarrow> int option" where
  "StringToBigInt str =
     (let t = trimString str in
      if t = [] then Some 0
      else case t of
        c1 # c2 # ds \<Rightarrow>
          if c1 = CHR ''0'' \<and> (c2 = CHR ''x'' \<or> c2 = CHR ''X'') then map_option int (digitsLiteral 16 ds)
          else if c1 = CHR ''0'' \<and> (c2 = CHR ''o'' \<or> c2 = CHR ''O'') then map_option int (digitsLiteral 8 ds)
          else if c1 = CHR ''0'' \<and> (c2 = CHR ''b'' \<or> c2 = CHR ''B'') then map_option int (digitsLiteral 2 ds)
          else signedInteger t
      | _ \<Rightarrow> signedInteger t)"

definition BigInt :: "string \<Rightarrow> error + int" where
  "BigInt str = (case StringToBigInt str of None \<Rightarrow> Inl SyntaxError | Some v \<Rightarrow> Inr v)"

text \<open>
  \<^verbatim>\<open>parseInt(s, 16)\<close>: leading white space and a sign are removed, then a \<^verbatim>\<open>0x\<close> prefix (the
  radix is 16), and the longest run of hexadecimal digits is read. \<open>None\<close> is NaN.
\<close>

definition parseInt16 :: "string \<Rightarrow> int option" where
  "parseInt16 str =
     (let s = trimStart str;
          neg = (s \<noteq> [] \<and> hd s = CHR ''-'');
          s1 = (if s \<noteq> [] \<and> (hd s = CHR ''+'' \<or> hd s = CHR ''-'') then tl s else s);
          s2 = (if take 2 s1 = ''0x'' \<or> take 2 s1 = ''0X'' then drop 2 s1 else s1);
          z = takeWhile (isRadixDigit 16) s2
      in if z = [] then None
         else case digitsToNat 16 0 z of
                None \<Rightarrow> None
              | Some m \<Rightarrow> Some (if neg then - int m else int m))"

subsection \<open>Typed arrays\<close>

text \<open>
  \<^verbatim>\<open>u8[i] = x\<close>: the number is reduced modulo 256 (NaN is stored as 0), and a store
  outside the array is ignored.
\<close>

definition toUint8 :: "int option \<Rightarrow> byte" where
  "toUint8 x = (case x of None \<Rightarrow> 0 | Some n \<Rightarrow> word_of_int n)"

definition typedArrayStore :: "bytes \<Rightarrow> nat \<Rightarrow> int option \<Rightarrow> bytes" where
  "typedArrayStore u8 i x = (if i < length u8 then u8[i := toUint8 x] else u8)"

text \<open>
  \<^verbatim>\<open>a.slice(start, end)\<close> on a typed array: a negative index counts from the end, and
  both are clamped to the array.
\<close>

definition relativeIndex :: "nat \<Rightarrow> int \<Rightarrow> nat" where
  "relativeIndex len k = (if k < 0 then nat (max (int len + k) 0) else min (nat k) len)"

definition typedArraySlice :: "'a list \<Rightarrow> int \<Rightarrow> int \<Rightarrow> 'a list" where
  "typedArraySlice a start end' =
     (let k = relativeIndex (length a) start;
          final = relativeIndex (length a) end'
      in take (final - k) (drop k a))"

definition typedArraySliceFrom :: "'a list \<Rightarrow> int \<Rightarrow> 'a list" where
  "typedArraySliceFrom a start = typedArraySlice a start (int (length a))"

text \<open>
  \<^verbatim>\<open>result.set(arr, offset)\<close>: a RangeError when the source does not fit behind the offset.
\<close>

definition typedArraySet :: "bytes \<Rightarrow> bytes \<Rightarrow> nat \<Rightarrow> error + bytes" where
  "typedArraySet result arr offset =
     (if offset + length arr > length result then Inl RangeError
      else Inr (take offset result @ arr @ drop (offset + length arr) result))"

subsection \<open>Hexadecimal strings and byte arrays\<close>

text \<open>\<^verbatim>\<open>uint8ArrayToHex\<close>: two lower-case digits for each byte, behind \<^verbatim>\<open>0x\<close>.\<close>

definition byteToHex :: "byte \<Rightarrow> string" where
  "byteToHex i =
     (let h = numberToString 16 (unat i)
      in if length h mod 2 \<noteq> 0 then CHR ''0'' # h else h)"

definition uint8ArrayToHex :: "bytes \<Rightarrow> string" where
  "uint8ArrayToHex buffer = ''0x'' @ concat (map byteToHex buffer)"

text \<open>
  \<^verbatim>\<open>hexToUint8Array\<close>. \<^verbatim>\<open>len\<close> is half the length of the padded string, so a half-integer
  when that length is odd: \<^verbatim>\<open>new Uint8Array(len)\<close> rounds it down, and the loop test
  \<^verbatim>\<open>i < len\<close> holds exactly when twice \<open>i\<close> is below the length of the string.
\<close>

definition sanitised_hex :: "int \<Rightarrow> string" where
  "sanitised_hex v = padStart 64 CHR ''0'' (bigintToString 16 v)"

function hexLoop :: "string \<Rightarrow> nat \<Rightarrow> nat \<Rightarrow> bytes \<Rightarrow> bytes" where
  "hexLoop s i j u8 =
     (if 2 * i < length s
      then hexLoop s (i + 1) (j + 2) (typedArrayStore u8 i (parseInt16 (stringSlice s j (j + 2))))
      else u8)"
  by pat_completeness auto
termination
  by (relation "measure (\<lambda>(s, i, j, u8). length s - 2 * i)") auto

declare hexLoop.simps [simp del]

definition hexToUint8Array :: "string \<Rightarrow> error + bytes" where
  "hexToUint8Array hex =
     (case BigInt hex of
        Inl e \<Rightarrow> Inl e
      | Inr v \<Rightarrow>
          let s = sanitised_hex v;
              u8 = replicate (length s div 2) 0
          in Inr (hexLoop s 0 0 u8))"

subsection \<open>Arrays, sets and maps of the language\<close>

text \<open>\<^verbatim>\<open>[...new Set(xs)]\<close>: the elements of \<open>xs\<close> in the order of their first occurrence.\<close>

definition setAdd :: "'a list \<Rightarrow> 'a \<Rightarrow> 'a list" where
  "setAdd s x = (if x \<in> set s then s else s @ [x])"

definition arrayFromSet :: "'a list \<Rightarrow> 'a list" where
  "arrayFromSet xs = foldl setAdd [] xs"

text \<open>
  \<^verbatim>\<open>xs.sort()\<close> with no comparison function: the elements are compared as strings, code unit
  by code unit, a proper prefix being smaller; the sort is stable. A witness index is written
  in decimal (below \<open>10\<^sup>2\<^sup>1\<close>, where the language changes to exponent notation).
\<close>

fun codeUnitLess :: "string \<Rightarrow> string \<Rightarrow> bool" where
  "codeUnitLess [] [] = False"
| "codeUnitLess [] (y # ys) = True"
| "codeUnitLess (x # xs) [] = False"
| "codeUnitLess (x # xs) (y # ys) =
     ((of_char x :: nat) < of_char y \<or> (x = y \<and> codeUnitLess xs ys))"

fun sortInsert :: "nat \<Rightarrow> nat list \<Rightarrow> nat list" where
  "sortInsert x [] = [x]"
| "sortInsert x (y # ys) =
     (if codeUnitLess (numberToString 10 y) (numberToString 10 x) then y # sortInsert x ys
      else x # y # ys)"

definition defaultSort :: "nat list \<Rightarrow> nat list" where
  "defaultSort xs = foldr sortInsert xs []"

text \<open>
  A \<^verbatim>\<open>Map\<close> keeps its entries in insertion order: \<^verbatim>\<open>set\<close> on a present key replaces the
  value in place, on a new key it appends.
\<close>

type_synonym WitnessMap = "(nat \<times> string) list"

definition mapSet :: "WitnessMap \<Rightarrow> nat \<Rightarrow> string \<Rightarrow> WitnessMap" where
  "mapSet m k v =
     (if k \<in> fst ` set m then map (\<lambda>(k', v'). if k' = k then (k', v) else (k', v')) m
      else m @ [(k, v)])"

definition mapKeys :: "WitnessMap \<Rightarrow> nat list" where
  "mapKeys m = map fst m"

definition mapGet :: "WitnessMap \<Rightarrow> nat \<Rightarrow> string option" where
  "mapGet m k = map_of m k"

text \<open>\<^verbatim>\<open>xs.map(f)\<close> and \<^verbatim>\<open>xs.flatMap(f)\<close> when \<open>f\<close> may throw: the first exception ends the traversal.\<close>

fun mapE :: "('a \<Rightarrow> error + 'b) \<Rightarrow> 'a list \<Rightarrow> error + 'b list" where
  "mapE f [] = Inr []"
| "mapE f (x # xs) =
     (case f x of
        Inl e \<Rightarrow> Inl e
      | Inr y \<Rightarrow> (case mapE f xs of Inl e \<Rightarrow> Inl e | Inr ys \<Rightarrow> Inr (y # ys)))"

fun flatMapE :: "('a \<Rightarrow> error + 'b list) \<Rightarrow> 'a list \<Rightarrow> error + 'b list" where
  "flatMapE f [] = Inr []"
| "flatMapE f (x # xs) =
     (case f x of
        Inl e \<Rightarrow> Inl e
      | Inr ys \<Rightarrow> (case flatMapE f xs of Inl e \<Rightarrow> Inl e | Inr zs \<Rightarrow> Inr (ys @ zs)))"

subsection \<open>The circuit and the proof data\<close>

record AbiParameter =
  name :: string
  visibility :: string

record WitnessRange =
  start :: nat
  end' :: nat

text \<open>\<^verbatim>\<open>param_witnesses\<close> is an object indexed by parameter name: \<open>None\<close> is a missing property.\<close>

record Abi =
  parameters :: "AbiParameter list"
  param_witnesses :: "string \<Rightarrow> WitnessRange list option"
  return_witnesses :: "nat list"

record CompiledCircuit =
  bytecode :: string
  abi :: Abi

record ProofData =
  proof' :: bytes
  publicInputs :: WitnessMap

record BackendOptions =
  threads :: nat

definition numBytesInProofWithoutPublicInputs :: nat where
  "numBytesInProofWithoutPublicInputs = 2144"

subsection \<open>Flattening and reassembling\<close>

fun flattenLoop :: "bytes list \<Rightarrow> nat \<Rightarrow> bytes \<Rightarrow> error + bytes" where
  "flattenLoop [] offset result = Inr result"
| "flattenLoop (arr # arrays) offset result =
     (case typedArraySet result arr offset of
        Inl e \<Rightarrow> Inl e
      | Inr result' \<Rightarrow> flattenLoop arrays (offset + length arr) result')"

definition flattenUint8Arrays :: "bytes list \<Rightarrow> error + bytes" where
  "flattenUint8Arrays arrays =
     (let totalLength = foldl (\<lambda>acc val. acc + length val) 0 arrays;
          result = replicate totalLength 0
      in flattenLoop arrays 0 result)"

text \<open>
  \<^verbatim>\<open>reconstructProofWithPublicInputs\<close>. Every index comes from the keys of the map, so
  \<^verbatim>\<open>get\<close> finds it; on \<^verbatim>\<open>undefined\<close> \<^verbatim>\<open>BigInt\<close> would throw a TypeError.
\<close>

definition reconstructProofWithPublicInputs :: "ProofData \<Rightarrow> error + bytes" where
  "reconstructProofWithPublicInputs proofData =
     (let publicInputIndices = defaultSort (mapKeys (publicInputs proofData))
      in case mapE (\<lambda>index. case mapGet (publicInputs proofData) index of
                               None \<Rightarrow> Inl TypeError
                             | Some hex \<Rightarrow> hexToUint8Array hex) publicInputIndices of
           Inl e \<Rightarrow> Inl e
         | Inr flattenedPublicInputs \<Rightarrow>
             (case flattenUint8Arrays flattenedPublicInputs of
                Inl e \<Rightarrow> Inl e
              | Inr publicInputsConcatenated \<Rightarrow> Inr (publicInputsConcatenated @ proof' proofData)))"

subsection \<open>Splitting the combined proof\<close>

text \<open>The loop of \<^verbatim>\<open>generateProof\<close> that cuts the public-input region into chunks of 32 bytes.\<close>

definition publicInputSize :: nat where
  "publicInputSize = 32"

function chunkLoop :: "bytes \<Rightarrow> nat \<Rightarrow> bytes list \<Rightarrow> bytes list" where
  "chunkLoop publicInputsConcatenated i flattenedPublicInputs =
     (if i < length publicInputsConcatenated
      then chunkLoop publicInputsConcatenated (i + publicInputSize)
             (flattenedPublicInputs @
                [typedArraySlice publicInputsConcatenated (int i) (int (i + publicInputSize))])
      else flattenedPublicInputs)"
  by pat_completeness auto
termination
  by (relation "measure (\<lambda>(p, i, acc). length p - i)") (auto simp: publicInputSize_def)

declare chunkLoop.simps [simp del]

text \<open>
  \<^verbatim>\<open>Array.from({ length: end - start }, (_, i) => start + i)\<close>: a negative length counts as 0.
\<close>

definition rangeWitnesses :: "WitnessRange \<Rightarrow> nat list" where
  "rangeWitnesses witness_range =
     map (\<lambda>i. start witness_range + i) [0..<end' witness_range - start witness_range]"

definition public_parameter_witnesses :: "Abi \<Rightarrow> error + nat list" where
  "public_parameter_witnesses abi' =
     (let public_parameters = filter (\<lambda>param. visibility param = ''public'') (parameters abi')
      in flatMapE (\<lambda>param. case param_witnesses abi' (name param) of
                              None \<Rightarrow> Inl TypeError
                            | Some ranges \<Rightarrow> Inr (concat (map rangeWitnesses ranges)))
           public_parameters)"

definition public_input_witnesses :: "Abi \<Rightarrow> error + nat list" where
  "public_input_witnesses abi' =
     (case public_parameter_witnesses abi' of
        Inl e \<Rightarrow> Inl e
      | Inr ws \<Rightarrow> Inr (defaultSort (arrayFromSet (ws @ return_witnesses abi'))))"

text \<open>
  The \<^verbatim>\<open>forEach\<close> that fills the map: \<^verbatim>\<open>flattenedPublicInputs[index]\<close> is \<^verbatim>\<open>undefined\<close> beyond
  the last chunk, and \<^verbatim>\<open>uint8ArrayToHex\<close> then throws a TypeError.
\<close>

fun fillPublicInputs :: "bytes list \<Rightarrow> nat list \<Rightarrow> nat \<Rightarrow> WitnessMap \<Rightarrow> error + WitnessMap" where
  "fillPublicInputs flattenedPublicInputs [] index m = Inr m"
| "fillPublicInputs flattenedPublicInputs (witness_index # ws) index m =
     (if index < length flattenedPublicInputs
      then fillPublicInputs flattenedPublicInputs ws (index + 1)
             (mapSet m witness_index (uint8ArrayToHex (flattenedPublicInputs ! index)))
      else Inl TypeError)"

text \<open>
  The part of \<^verbatim>\<open>generateProof\<close> behind the native call: from the combined buffer to the
  proof data.
\<close>

definition splitProofWithPublicInputs :: "Abi \<Rightarrow> bytes \<Rightarrow> error + ProofData" where
  "splitProofWithPublicInputs abi' proofWithPublicInputs =
     (let splitIndex = int (length proofWithPublicInputs) - int numBytesInProofWithoutPublicInputs;
          publicInputsConcatenated = typedArraySlice proofWithPublicInputs 0 splitIndex;
          flattenedPublicInputs = chunkLoop publicInputsConcatenated 0 []
      in case public_input_witnesses abi' of
           Inl e \<Rightarrow> Inl e
         | Inr ws \<Rightarrow>
             (case fillPublicInputs flattenedPublicInputs ws 0 [] of
                Inl e \<Rightarrow> Inl e
              | Inr m \<Rightarrow>
                  Inr \<lparr>proof' = typedArraySliceFrom proofWithPublicInputs splitIndex,
                       publicInputs = m\<rparr>))"

subsection \<open>The native library\<close>

text \<open>
  The calls into \<^verbatim>\<open>@aztec/bb.js\<close>. The handle of the api and the pointer of the composer
  are opaque objects, numbered here; an object is never falsy. The field \<^verbatim>\<open>acirComposer\<close>
  of the backend is passed as it is, \<open>None\<close> being \<^verbatim>\<open>undefined\<close>.
\<close>

type_synonym handle = nat

record Crs =
  g1Data :: bytes
  numPoints :: nat
  g2Data :: bytes

datatype call =
    ImportBB
  | BarretenbergNew nat
  | AcirGetCircuitSizes handle bytes
  | CrsNew nat
  | CommonInitSlabAllocator handle nat
  | SrsInitSrs handle bytes nat bytes
  | AcirNewAcirComposer handle nat
  | AcirInitProvingKey handle "handle option" bytes
  | AcirCreateProof handle "handle option" bytes bytes bool
  | AcirSerializeProofIntoFields handle "handle option" bytes nat
  | AcirInitVerificationKey handle "handle option"
  | AcirSerializeVerificationKeyIntoFields handle "handle option"
  | AcirVerifyProof handle "handle option" bytes bool
  | ApiDestroy handle

text \<open>
  What a native call answers may depend on every call made before it: each function of the
  library takes the calls so far and the call itself, and returns a value or throws. A field
  element is returned as the string its \<^verbatim>\<open>toString()\<close> gives. \<^verbatim>\<open>gunzip\<close> of \<^verbatim>\<open>fflate\<close> is
  a pure function that may throw.
\<close>

type_synonym 'a native_fn = "call list \<Rightarrow> call \<Rightarrow> error + 'a"

record native =
  importBB :: "unit native_fn"
  Barretenberg_new :: "handle native_fn"
  acirGetCircuitSizes :: "(nat \<times> nat \<times> nat) native_fn"
  Crs_new :: "Crs native_fn"
  commonInitSlabAllocator :: "unit native_fn"
  srsInitSrs :: "unit native_fn"
  acirNewAcirComposer :: "handle native_fn"
  acirInitProvingKey :: "unit native_fn"
  acirCreateProof :: "bytes native_fn"
  acirSerializeProofIntoFields :: "string list native_fn"
  acirInitVerificationKey :: "unit native_fn"
  acirSerializeVerificationKeyIntoFields :: "(string list \<times> string) native_fn"
  acirVerifyProof :: "bool native_fn"
  api_destroy :: "unit native_fn"
  gunzip :: "bytes \<Rightarrow> error + bytes"

text \<open>An awaited native call: its answer, and the call appended to the calls made so far.\<close>

definition invoke :: "'a native_fn \<Rightarrow> call \<Rightarrow> call list \<Rightarrow> (error + 'a) \<times> call list" where
  "invoke f c calls = (f calls c, calls @ [c])"

subsection \<open>The backend\<close>

record BarretenbergBackend =
  api :: "handle option"
  acirComposer :: "handle option"
  acirUncompressedBytecode :: bytes
  acirCircuit :: CompiledCircuit
  options :: BackendOptions

text \<open>
  A method of the class takes the backend and the calls made so far, and returns its result (or the
  exception that rejects its promise), the backend and the calls afterwards.
\<close>

type_synonym 'a async = "BarretenbergBackend \<Rightarrow> call list \<Rightarrow> (error + 'a) \<times> BarretenbergBackend \<times> call list"

text \<open>
  The constructor. \<^verbatim>\<open>acirToUint8Array\<close> of \<^verbatim>\<open>serialize.js\<close> is a parameter; the options
  default to one thread.
\<close>

definition new_BarretenbergBackend ::
  "(string \<Rightarrow> error + bytes) \<Rightarrow> CompiledCircuit \<Rightarrow> BackendOptions option \<Rightarrow> error + BarretenbergBackend" where
  "new_BarretenbergBackend acirToUint8Array circuit opts =
     (case acirToUint8Array (bytecode circuit) of
        Inl e \<Rightarrow> Inl e
      | Inr bs \<Rightarrow>
          Inr \<lparr>api = None, acirComposer = None, acirUncompressedBytecode = bs,
               acirCircuit = circuit,
               options = (case opts of None \<Rightarrow> \<lparr>threads = 1\<rparr> | Some o' \<Rightarrow> o')\<rparr>)"

definition instantiate :: "native \<Rightarrow> unit async" where
  "instantiate N b calls =
     (if api b = None then
        (case invoke (importBB N) ImportBB calls of
           (Inl e, c1) \<Rightarrow> (Inl e, b, c1)
         | (Inr _, c1) \<Rightarrow>
        (case invoke (Barretenberg_new N) (BarretenbergNew (threads (options b))) c1 of
           (Inl e, c2) \<Rightarrow> (Inl e, b, c2)
         | (Inr api', c2) \<Rightarrow>
        (case invoke (acirGetCircuitSizes N) (AcirGetCircuitSizes api' (acirUncompressedBytecode b)) c2 of
           (Inl e, c3) \<Rightarrow> (Inl e, b, c3)
         | (Inr (_, _, subgroupSize), c3) \<Rightarrow>
        (case invoke (Crs_new N) (CrsNew (subgroupSize + 1)) c3 of
           (Inl e, c4) \<Rightarrow> (Inl e, b, c4)
         | (Inr crs, c4) \<Rightarrow>
        (case invoke (commonInitSlabAllocator N) (CommonInitSlabAllocator api' subgroupSize) c4 of
           (Inl e, c5) \<Rightarrow> (Inl e, b, c5)
         | (Inr _, c5) \<Rightarrow>
        (case invoke (srsInitSrs N) (SrsInitSrs api' (g1Data crs) (numPoints crs) (g2Data crs)) c5 of
           (Inl e, c6) \<Rightarrow> (Inl e, b, c6)
         | (Inr _, c6) \<Rightarrow>
        (case invoke (acirNewAcirComposer N) (AcirNewAcirComposer api' subgroupSize) c6 of
           (Inl e, c7) \<Rightarrow> (Inl e, b, c7)
         | (Inr composer, c7) \<Rightarrow>
        (let b1 = b\<lparr>acirComposer := Some composer\<rparr> in
         case invoke (acirInitProvingKey N)
                (AcirInitProvingKey api' (acirComposer b1) (acirUncompressedBytecode b1)) c7 of
           (Inl e, c8) \<Rightarrow> (Inl e, b1, c8)
         | (Inr _, c8) \<Rightarrow> (Inr (), b1\<lparr>api := Some api'\<rparr>, c8)))))))))
      else (Inr (), b, calls))"

definition generateProof :: "native \<Rightarrow> bytes \<Rightarrow> bool \<Rightarrow> ProofData async" where
  "generateProof N compressedWitness makeEasyToVerifyInCircuit b calls =
     (case instantiate N b calls of
        (Inl e, b1, c1) \<Rightarrow> (Inl e, b1, c1)
      | (Inr _, b1, c1) \<Rightarrow>
          (case api b1 of
             None \<Rightarrow> (Inl TypeError, b1, c1)
           | Some api' \<Rightarrow>
               (case gunzip N compressedWitness of
                  Inl e \<Rightarrow> (Inl e, b1, c1)
                | Inr witness \<Rightarrow>
                    (case invoke (acirCreateProof N)
                            (AcirCreateProof api' (acirComposer b1) (acirUncompressedBytecode b1)
                               witness makeEasyToVerifyInCircuit) c1 of
                       (Inl e, c2) \<Rightarrow> (Inl e, b1, c2)
                     | (Inr proofWithPublicInputs, c2) \<Rightarrow>
                         (splitProofWithPublicInputs (abi (acirCircuit b1)) proofWithPublicInputs,
                          b1, c2)))))"

definition generateFinalProof :: "native \<Rightarrow> bytes \<Rightarrow> ProofData async" where
  "generateFinalProof N decompressedWitness = generateProof N decompressedWitness False"

definition generateIntermediateProof :: "native \<Rightarrow> bytes \<Rightarrow> ProofData async" where
  "generateIntermediateProof N witness = generateProof N witness True"

definition generateIntermediateProofArtifacts ::
  "native \<Rightarrow> ProofData \<Rightarrow> nat \<Rightarrow> (string list \<times> string list \<times> string) async" where
  "generateIntermediateProofArtifacts N proofData numOfPublicInputs b calls =
     (case instantiate N b calls of
        (Inl e, b1, c1) \<Rightarrow> (Inl e, b1, c1)
      | (Inr _, b1, c1) \<Rightarrow>
          (case reconstructProofWithPublicInputs proofData of
             Inl e \<Rightarrow> (Inl e, b1, c1)
           | Inr prf \<Rightarrow>
               (case api b1 of
                  None \<Rightarrow> (Inl TypeError, b1, c1)
                | Some api' \<Rightarrow>
                    (case invoke (acirSerializeProofIntoFields N)
                            (AcirSerializeProofIntoFields api' (acirComposer b1) prf numOfPublicInputs) c1 of
                       (Inl e, c2) \<Rightarrow> (Inl e, b1, c2)
                     | (Inr proofAsFields, c2) \<Rightarrow>
                    (case invoke (acirInitVerificationKey N)
                            (AcirInitVerificationKey api' (acirComposer b1)) c2 of
                       (Inl e, c3) \<Rightarrow> (Inl e, b1, c3)
                     | (Inr _, c3) \<Rightarrow>
                    (case invoke (acirSerializeVerificationKeyIntoFields N)
                            (AcirSerializeVerificationKeyIntoFields api' (acirComposer b1)) c3 of
                       (Inl e, c4) \<Rightarrow> (Inl e, b1, c4)
                     | (Inr (vkAsFields, vkHash), c4) \<Rightarrow>
                         (Inr (proofAsFields, vkAsFields, vkHash), b1, c4)))))))"

definition verifyProof :: "native \<Rightarrow> bytes \<Rightarrow> bool \<Rightarrow> bool async" where
  "verifyProof N prf makeEasyToVerifyInCircuit b calls =
     (case instantiate N b calls of
        (Inl e, b1, c1) \<Rightarrow> (Inl e, b1, c1)
      | (Inr _, b1, c1) \<Rightarrow>
          (case api b1 of
             None \<Rightarrow> (Inl TypeError, b1, c1)
           | Some api' \<Rightarrow>
               (case invoke (acirInitVerificationKey N)
                       (AcirInitVerificationKey api' (acirComposer b1)) c1 of
                  (Inl e, c2) \<Rightarrow> (Inl e, b1, c2)
                | (Inr _, c2) \<Rightarrow>
                    (case invoke (acirVerifyProof N)
                            (AcirVerifyProof api' (acirComposer b1) prf makeEasyToVerifyInCircuit) c2 of
                       (Inl e, c3) \<Rightarrow> (Inl e, b1, c3)
                     | (Inr verified, c3) \<Rightarrow> (Inr verified, b1, c3)))))"

definition verifyFinalProof :: "native \<Rightarrow> ProofData \<Rightarrow> bool async" where
  "verifyFinalProof N proofData b calls =
     (case reconstructProofWithPublicInputs proofData of
        Inl e \<Rightarrow> (Inl e, b, calls)
      | Inr prf \<Rightarrow> verifyProof N prf False b calls)"

definition verifyIntermediateProof :: "native \<Rightarrow> ProofData \<Rightarrow> bool async" where
  "verifyIntermediateProof N proofData b calls =
     (case reconstructProofWithPublicInputs proofData of
        Inl e \<Rightarrow> (Inl e, b, calls)
      | Inr prf \<Rightarrow> verifyProof N prf True b calls)"

definition destroy :: "native \<Rightarrow> unit async" where
  "destroy N b calls =
     (case api b of
        None \<Rightarrow> (Inr (), b, calls)
      | Some api' \<Rightarrow>
          (case invoke (api_destroy N) (ApiDestroy api') calls of
             (Inl e, c1) \<Rightarrow> (Inl e, b, c1)
           | (Inr _, c1) \<Rightarrow> (Inr (), b, c1)))"

text \<open>
  A caller uses the backend through its methods, one after the other, and may go on after
  an exception: a run of operations keeps the backend and the calls, and drops the results.
\<close>

datatype operation =
    Instantiate
  | GenerateFinalProof bytes
  | GenerateIntermediateProof bytes
  | GenerateProof bytes bool
  | GenerateIntermediateProofArtifacts ProofData nat
  | VerifyFinalProof ProofData
  | VerifyIntermediateProof ProofData
  | VerifyProof bytes bool
  | Destroy

fun perform :: "native \<Rightarrow> operation \<Rightarrow> BarretenbergBackend \<times> call list \<Rightarrow> BarretenbergBackend \<times> call list" where
  "perform N Instantiate (b, calls) = snd (instantiate N b calls)"
| "perform N (GenerateFinalProof w) (b, calls) = snd (generateFinalProof N w b calls)"
| "perform N (GenerateIntermediateProof w) (b, calls) = snd (generateIntermediateProof N w b calls)"
| "perform N (GenerateProof w f) (b, calls) = snd (generateProof N w f b calls)"
| "perform N (GenerateIntermediateProofArtifacts pd n) (b, calls) =
     snd (generateIntermediateProofArtifacts N pd n b calls)"
| "perform N (VerifyFinalProof pd) (b, calls) = snd (verifyFinalProof N pd b calls)"
| "perform N (VerifyIntermediateProof pd) (b, calls) = snd (verifyIntermediateProof N pd b calls)"
| "perform N (VerifyProof p f) (b, calls) = snd (verifyProof N p f b calls)"
| "perform N Destroy (b, calls) = snd (destroy N b calls)"

definition performAll :: "native \<Rightarrow> operation list \<Rightarrow> BarretenbergBackend \<times> call list \<Rightarrow> BarretenbergBackend \<times> call list" where
  "performAll N ops s = foldl (\<lambda>s' op. perform N op s') s ops"

subsection \<open>Specification notions\<close>

text \<open>The number that a byte array denotes when it is read big-endian.\<close>

definition be_value :: "bytes \<Rightarrow> nat" where
  "be_value u = foldl (\<lambda>a b. a * 256 + unat b) 0 u"

subsection \<open>A circuit, a native library and a backend to run the model on\<close>

text \<open>
  A circuit with a private parameter at witness 1, a public parameter at witness 2 and a return
  value at witness 10; a native library in which every call succeeds and whose combined proof
  carries two public inputs; the backend that the constructor builds for them.
\<close>

definition exampleAbi :: Abi where
  "exampleAbi =
     \<lparr>parameters = [\<lparr>name = ''x'', visibility = ''private''\<rparr>, \<lparr>name = ''y'', visibility = ''public''\<rparr>],
      param_witnesses = [''x'' \<mapsto> [\<lparr>start = 1, end' = 2\<rparr>], ''y'' \<mapsto> [\<lparr>start = 2, end' = 3\<rparr>]],
      return_witnesses = [10]\<rparr>"

definition exampleCircuit :: CompiledCircuit where
  "exampleCircuit = \<lparr>bytecode = ''H4sIAAAA'', abi = exampleAbi\<rparr>"

definition exampleProofWithPublicInputs :: bytes where
  "exampleProofWithPublicInputs = replicate 32 7 @ replicate 32 9 @ replicate 2144 1"

definition exampleNative :: native where
  "exampleNative =
     \<lparr>importBB = (\<lambda>calls c. Inr ()),
      Barretenberg_new = (\<lambda>calls c. Inr 1),
      acirGetCircuitSizes = (\<lambda>calls c. Inr (5, 8, 8)),
      Crs_new = (\<lambda>calls c. Inr \<lparr>g1Data = [1], numPoints = 9, g2Data = [2]\<rparr>),
      commonInitSlabAllocator = (\<lambda>calls c. Inr ()),
      srsInitSrs = (\<lambda>calls c. Inr ()),
      acirNewAcirComposer = (\<lambda>calls c. Inr 2),
      acirInitProvingKey = (\<lambda>calls c. Inr ()),
      acirCreateProof = (\<lambda>calls c. Inr exampleProofWithPublicInputs),
      acirSerializeProofIntoFields = (\<lambda>calls c. Inr []),
      acirInitVerificationKey = (\<lambda>calls c. Inr ()),
      acirSerializeVerificationKeyIntoFields = (\<lambda>calls c. Inr ([], ''0x00'')),
      acirVerifyProof = (\<lambda>calls c. Inr True),
      api_destroy = (\<lambda>calls c. Inr ()),
      gunzip = (\<lambda>w. Inr w)\<rparr>"

definition exampleBackend :: BarretenbergBackend where
  "exampleBackend =
     \<lparr>api = None, acirComposer = None, acirUncompressedBytecode = [10, 11, 12],
      acirCircuit = exampleCircuit, options = \<lparr>threads = 1\<rparr>\<rparr>"

definition exampleInstantiated :: BarretenbergBackend where
  "exampleInstantiated = exampleBackend\<lparr>acirComposer := Some 2, api := Some 1\<rparr>"

definition exampleSetupCalls :: "call list" where
  "exampleSetupCalls =
     [ImportBB, BarretenbergNew 1, AcirGetCircuitSizes 1 [10, 11, 12], CrsNew 9,
      CommonInitSlabAllocator 1 8, SrsInitSrs 1 [1] 9 [2], AcirNewAcirComposer 1 8,
      AcirInitProvingKey 1 (Some 2) [10, 11, 12]]"

section \<open>Digits, hexadecimal strings and bytes\<close>

lemma digitValue_digitChar: "d < 36 \<Longrightarrow> digitValue (digitChar d) = Some d"
  by (auto simp: digitValue_def digitChar_def Let_def)

lemma isRadixDigit_digitChar: "d < r \<Longrightarrow> r \<le> 36 \<Longrightarrow> isRadixDigit r (digitChar d)"
  by (simp add: isRadixDigit_def digitValue_digitChar)

lemma digitsToNat_append:
  "digitsToNat r acc (xs @ ys) =
     (case digitsToNat r acc xs of None \<Rightarrow> None | Some a \<Rightarrow> digitsToNat r a ys)"
  by (induction xs arbitrary: acc) (auto split: option.splits)

lemma digitsToNat_toRadixString:
  "2 \<le> r \<Longrightarrow> r \<le> 36 \<Longrightarrow> digitsToNat r 0 (toRadixString r n) = Some n"
proof (induction r n rule: toRadixString.induct)
  case (1 r n)
  show ?case
  proof (cases "n < r")
    case True
    with 1 show ?thesis
      by (subst toRadixString.simps) (simp add: digitValue_digitChar)
  next
    case False
    with 1 have IH: "digitsToNat r 0 (toRadixString r (n div r)) = Some (n div r)" by simp
    have lt: "n mod r < r" using 1(2) by simp
    then have "n mod r < 36" using 1(3) by simp
    then have dv: "digitValue (digitChar (n mod r)) = Some (n mod r)"
      by (rule digitValue_digitChar)
    show ?thesis using False 1(2) IH lt dv
      by (subst toRadixString.simps) (simp add: digitsToNat_append)
  qed
qed

lemma toRadixString_digits:
  "2 \<le> r \<Longrightarrow> r \<le> 36 \<Longrightarrow> c \<in> set (toRadixString r n) \<Longrightarrow> isRadixDigit r c"
proof (induction r n rule: toRadixString.induct)
  case (1 r n)
  show ?case
  proof (cases "n < r")
    case True
    with 1 show ?thesis
      by (subst (asm) (2) toRadixString.simps) (auto simp: isRadixDigit_digitChar)
  next
    case False
    with 1 show ?thesis
      by (subst (asm) (2) toRadixString.simps) (auto simp: isRadixDigit_digitChar)
  qed
qed

lemma toRadixString_nonempty: "toRadixString r n \<noteq> []"
  by (subst toRadixString.simps) simp

lemma length_toRadixString_le:
  "2 \<le> r \<Longrightarrow> 0 < k \<Longrightarrow> (length (toRadixString r n) \<le> k) = (n < r ^ k)"
proof (induction r n arbitrary: k rule: toRadixString.induct)
  case (1 r n)
  show ?case
  proof (cases "n < r")
    case True
    have "r ^ 1 \<le> r ^ k" using 1(2,3) by (intro power_increasing) auto
    with True have "n < r ^ k" by simp
    with True 1(2,3) show ?thesis
      by (subst toRadixString.simps) auto
  next
    case False
    show ?thesis
    proof (cases k)
      case 0
      with 1 show ?thesis by simp
    next
      case (Suc j)
      show ?thesis
      proof (cases "j = 0")
        case True
        have "toRadixString r (n div r) \<noteq> []" by (rule toRadixString_nonempty)
        then have "length (toRadixString r (n div r)) \<ge> 1" by (cases "toRadixString r (n div r)") auto
        with False True Suc 1(2) show ?thesis
          by (subst toRadixString.simps) auto
      next
        case jpos: False
        with 1 False have IH: "(length (toRadixString r (n div r)) \<le> j) = (n div r < r ^ j)"
          by simp
        have "(n div r < r ^ j) = (n < r ^ j * r)"
          using 1(2) by (simp add: div_less_iff_less_mult)
        with IH False Suc 1(2) show ?thesis
          by (subst toRadixString.simps) (auto simp: mult.commute)
      qed
    qed
  qed
qed

lemma radixDigit16_plain:
  assumes "isRadixDigit 16 c"
  shows "\<not> isWhiteSpace c" "c \<noteq> CHR ''+''" "c \<noteq> CHR ''-''" "c \<noteq> CHR ''x''" "c \<noteq> CHR ''X''"
  using assms
  by (auto simp: isRadixDigit_def digitValue_def isWhiteSpace_def Let_def split: if_splits)

lemma isRadixDigit_iff: "isRadixDigit r c = (\<exists>d. digitValue c = Some d \<and> d < r)"
  by (auto simp: isRadixDigit_def split: option.splits)

lemma parseInt16_pair:
  assumes a: "digitValue a = Some da" "da < 16" and b: "digitValue b = Some db" "db < 16"
  shows "parseInt16 [a, b] = Some (int (da * 16 + db))"
proof -
  have ra: "isRadixDigit 16 a" and rb: "isRadixDigit 16 b"
    using a b by (auto simp: isRadixDigit_iff)
  note fa = radixDigit16_plain[OF ra] and fb = radixDigit16_plain[OF rb]
  show ?thesis
    using fa fb ra rb a b
    by (simp add: parseInt16_def trimStart_def Let_def)
qed

lemma hexLoop_done: "\<not> 2 * i < length s \<Longrightarrow> hexLoop s i j u8 = u8"
  by (subst hexLoop.simps) simp

lemma hexLoop_step:
  "2 * i < length s \<Longrightarrow>
   hexLoop s i j u8 =
     hexLoop s (i + 1) (j + 2) (typedArrayStore u8 i (parseInt16 (stringSlice s j (j + 2))))"
  by (subst hexLoop.simps) simp

lemma hexLoop_map:
  assumes "length u8 = length s div 2" "i \<le> length s div 2"
  shows "hexLoop s i (2 * i) u8 =
           take i u8 @ map (\<lambda>k. toUint8 (parseInt16 (stringSlice s (2 * k) (2 * k + 2)))) [i..<length s div 2]"
  using assms
proof (induction "length s div 2 - i" arbitrary: i u8)
  case 0
  then have i: "i = length s div 2" by simp
  show ?case
  proof (cases "2 * i < length s")
    case True
    have nxt: "\<not> 2 * (i + 1) < length s" using i by simp
    have "typedArrayStore u8 i (parseInt16 (stringSlice s (2 * i) (2 * i + 2))) = u8"
      using 0 i by (simp add: typedArrayStore_def)
    then show ?thesis
      using True nxt i 0 by (simp add: hexLoop_step hexLoop_done)
  next
    case False
    then show ?thesis using i 0 by (simp add: hexLoop_done)
  qed
next
  case (Suc m)
  then have lt: "i < length s div 2" by simp
  then have cond: "2 * i < length s" by simp
  let ?b = "toUint8 (parseInt16 (stringSlice s (2 * i) (2 * i + 2)))"
  let ?u = "typedArrayStore u8 i (parseInt16 (stringSlice s (2 * i) (2 * i + 2)))"
  have u: "?u = u8[i := ?b]" using lt Suc.prems by (simp add: typedArrayStore_def)
  have len: "length ?u = length s div 2" using u Suc.prems by simp
  have m: "m = length s div 2 - (i + 1)" using Suc.hyps by simp
  have IH: "hexLoop s (i + 1) (2 * (i + 1)) ?u =
            take (i + 1) ?u @ map (\<lambda>k. toUint8 (parseInt16 (stringSlice s (2 * k) (2 * k + 2)))) [i + 1..<length s div 2]"
    using Suc.hyps(1)[OF m len] lt by simp
  have tk: "take (i + 1) ?u = take i u8 @ [?b]"
    using u lt Suc.prems by (simp add: take_Suc_conv_app_nth)
  have up: "[i..<length s div 2] = i # [i + 1..<length s div 2]"
    using lt by (simp add: upt_conv_Cons)
  have "hexLoop s i (2 * i) u8 = hexLoop s (i + 1) (2 * (i + 1)) ?u"
    using cond by (simp add: hexLoop_step)
  then show ?case using IH tk up by simp
qed

lemma be_value_snoc: "be_value (u @ [b]) = be_value u * 256 + unat b"
  by (simp add: be_value_def)

lemma drop_two:
  "Suc (2 * k) < length s \<Longrightarrow> drop (2 * k) s = s ! (2 * k) # s ! Suc (2 * k) # drop (Suc (Suc (2 * k))) s"
  by (simp add: Cons_nth_drop_Suc Suc_lessD)

lemma stringSlice_pair:
  "Suc (2 * k) < length s \<Longrightarrow> stringSlice s (2 * k) (2 * k + 2) = [s ! (2 * k), s ! Suc (2 * k)]"
  by (simp add: stringSlice_def drop_two)

lemma take_pair_snoc:
  "Suc (2 * k) < length s \<Longrightarrow> take (2 * Suc k) s = take (2 * k) s @ [s ! (2 * k), s ! Suc (2 * k)]"
proof -
  assume l: "Suc (2 * k) < length s"
  have "take (2 * Suc k) s = take (2 * k) s @ take 2 (drop (2 * k) s)"
    by (simp add: take_add[symmetric] del: take_add)
  then show ?thesis using l by (simp add: drop_two)
qed

lemma toUint8_small: "n < 256 \<Longrightarrow> unat (toUint8 (Some (int n))) = n"
proof -
  assume n: "n < 256"
  have "toUint8 (Some (int n)) = (word_of_nat n :: byte)"
    by (simp only: toUint8_def option.case of_int_of_nat_eq)
  moreover have "unat (word_of_nat n :: byte) = n"
    using n by (intro of_nat_inverse) simp_all
  ultimately show ?thesis by simp
qed

lemma hex_bytes_value:
  assumes dig: "\<forall>c \<in> set s. isRadixDigit 16 c" and m: "m \<le> length s div 2"
  shows "digitsToNat 16 0 (take (2 * m) s) =
           Some (be_value (map (\<lambda>k. toUint8 (parseInt16 (stringSlice s (2 * k) (2 * k + 2)))) [0..<m]))"
  using m
proof (induction m)
  case 0
  show ?case by (simp add: be_value_def)
next
  case (Suc m)
  then have l: "Suc (2 * m) < length s" by simp
  have IH: "digitsToNat 16 0 (take (2 * m) s) =
           Some (be_value (map (\<lambda>k. toUint8 (parseInt16 (stringSlice s (2 * k) (2 * k + 2)))) [0..<m]))"
    using Suc by simp
  from l dig have "isRadixDigit 16 (s ! (2 * m))" "isRadixDigit 16 (s ! Suc (2 * m))" by auto
  then obtain da db where
    a: "digitValue (s ! (2 * m)) = Some da" "da < 16" and
    b: "digitValue (s ! Suc (2 * m)) = Some db" "db < 16"
    by (auto simp: isRadixDigit_iff)
  have p: "parseInt16 (stringSlice s (2 * m) (2 * m + 2)) = Some (int (da * 16 + db))"
    using a b by (simp only: stringSlice_pair[OF l] parseInt16_pair)
  have "da * 16 + db < 256" using a b by simp
  then have un: "unat (toUint8 (Some (int (da * 16 + db)))) = da * 16 + db"
    by (rule toUint8_small)
  note tk = take_pair_snoc[OF l]
  show ?case
    using IH a b p un
    by (simp only: tk upt_Suc_append le0 map_append list.map be_value_snoc digitsToNat_append)
       (simp add: algebra_simps)
qed

lemma digitChar_0: "digitChar 0 = CHR ''0''"
  by code_simp

lemma digitsToNat_zeros: "digitsToNat 16 0 (replicate k CHR ''0'' @ t) = digitsToNat 16 0 t"
  by (induction k) (simp_all add: digitValue_def)

lemma isRadixDigit_zero: "isRadixDigit 16 CHR ''0''"
  by (simp add: isRadixDigit_def digitValue_def)

lemma sanitised_hex_nonneg:
  assumes "0 \<le> v"
  shows "digitsToNat 16 0 (sanitised_hex v) = Some (nat v)"
    and "\<forall>c \<in> set (sanitised_hex v). isRadixDigit 16 c"
    and "length (sanitised_hex v) = max 64 (length (toRadixString 16 (nat v)))"
  using assms
  by (auto simp: sanitised_hex_def bigintToString_def padStart_def digitsToNat_zeros
        digitsToNat_toRadixString isRadixDigit_zero toRadixString_digits)

lemma digitsToNat_drop_last:
  assumes "digitsToNat 16 0 s = Some w" "digitsToNat 16 0 (take (length s - 1) s) = Some x" "s \<noteq> []"
  shows "x = w div 16"
proof -
  from assms(3) have s: "s = take (length s - 1) s @ [last s]"
    by (metis butlast_conv_take snoc_eq_iff_butlast)
  have "digitsToNat 16 0 (take (length s - 1) s @ [last s]) = Some w"
    using assms(1) s by simp
  then show ?thesis
    using assms(2) by (auto simp: digitsToNat_append split: option.splits if_splits)
qed

lemma hexToUint8Array_nonneg:
  assumes p: "StringToBigInt s = Some v" and v: "0 \<le> v"
  shows "\<exists>u. hexToUint8Array s = Inr u \<and> length u = length (sanitised_hex v) div 2 \<and>
             be_value u = nat v div 16 ^ (length (sanitised_hex v) mod 2)"
proof -
  let ?h = "sanitised_hex v"
  let ?m = "length ?h div 2"
  let ?f = "\<lambda>k. toUint8 (parseInt16 (stringSlice ?h (2 * k) (2 * k + 2)))"
  let ?u = "map ?f [0..<?m]"
  note sh = sanitised_hex_nonneg[OF v]
  have loop: "hexLoop ?h 0 0 (replicate ?m 0) = ?u"
    using hexLoop_map[of "replicate ?m 0" ?h 0] by simp
  have res: "hexToUint8Array s = Inr ?u"
    using p loop by (simp add: hexToUint8Array_def BigInt_def Let_def)
  have val: "digitsToNat 16 0 (take (2 * ?m) ?h) = Some (be_value ?u)"
    using hex_bytes_value[OF sh(2), of ?m] by simp
  have "be_value ?u = nat v div 16 ^ (length ?h mod 2)"
  proof (cases "even (length ?h)")
    case True
    then have "take (2 * ?m) ?h = ?h" by simp
    with val sh(1) True show ?thesis by (simp add: even_iff_mod_2_eq_zero)
  next
    case False
    then have "2 * ?m = length ?h - 1" by presburger
    moreover from False have "?h \<noteq> []" by auto
    ultimately have "be_value ?u = nat v div 16"
      using digitsToNat_drop_last[OF sh(1), of "be_value ?u"] val by simp
    with False show ?thesis by (simp add: odd_iff_mod_2_eq_one)
  qed
  with res show ?thesis by simp
qed

lemma hexToUint8Array_fits:
  assumes p: "StringToBigInt s = Some v" and v: "0 \<le> v" "v < 2 ^ 256"
  shows "\<exists>u. hexToUint8Array s = Inr u \<and> length u = 32 \<and> be_value u = nat v"
proof -
  have "nat v < 16 ^ 64" using v by (simp add: nat_less_iff)
  then have "length (toRadixString 16 (nat v)) \<le> 64"
    by (simp add: length_toRadixString_le)
  then have "length (sanitised_hex v) = 64"
    using sanitised_hex_nonneg(3)[OF v(1)] by simp
  then show ?thesis using hexToUint8Array_nonneg[OF p v(1)] by simp
qed

lemma be_value_inj:
  "length u = length w \<Longrightarrow> be_value u = be_value w \<Longrightarrow> u = w"
proof (induction u arbitrary: w rule: rev_induct)
  case Nil
  then show ?case by simp
next
  case (snoc a u)
  then obtain w' b where w: "w = w' @ [b]"
    by (cases w rule: rev_cases) auto
  have la: "unat a < 256" and lb: "unat b < 256"
    using unsigned_less[of a] unsigned_less[of b] by simp_all
  from snoc.prems w have e: "be_value u * 256 + unat a = be_value w' * 256 + unat b"
    by (simp add: be_value_snoc)
  from e have "(be_value u * 256 + unat a) div 256 = (be_value w' * 256 + unat b) div 256"
    by simp
  with la lb have x: "be_value u = be_value w'" by simp
  with e have ab: "a = b" by (simp add: word_unat_eq_iff)
  from snoc.prems(1) w have "length u = length w'" by simp
  from snoc.IH[OF this x] ab w show ?case by simp
qed

lemma byteToHex_digits:
  "byteToHex b = [digitChar (unat b div 16), digitChar (unat b mod 16)]"
proof -
  have lb: "unat b < 256" using unsigned_less[of b] by simp
  show ?thesis
  proof (cases "unat b < 16")
    case True
    then show ?thesis
      by (simp add: byteToHex_def numberToString_def toRadixString.simps[of 16 "unat b"] digitChar_0)
  next
    case False
    with lb have "unat b div 16 < 16" by simp
    with False show ?thesis
      by (simp add: byteToHex_def numberToString_def toRadixString.simps[of 16 "unat b"]
            toRadixString.simps[of 16 "unat b div 16"])
  qed
qed

lemma digitsToNat_byteToHex:
  "digitsToNat 16 acc (byteToHex b @ rest) = digitsToNat 16 (acc * 256 + unat b) rest"
proof -
  have lb: "unat b < 256" using unsigned_less[of b] by simp
  then have d: "unat b div 16 < 16" by simp
  show ?thesis
    using d by (simp add: byteToHex_digits digitValue_digitChar add.commute mult.commute)
qed

lemma digitsToNat_bytes:
  "digitsToNat 16 acc (concat (map byteToHex v)) = Some (foldl (\<lambda>a b. a * 256 + unat b) acc v)"
  by (induction v arbitrary: acc) (simp_all add: digitsToNat_byteToHex)

lemma trimString_plain:
  "s \<noteq> [] \<Longrightarrow> \<not> isWhiteSpace (hd s) \<Longrightarrow> \<not> isWhiteSpace (last s) \<Longrightarrow> trimString s = s"
proof -
  assume a: "s \<noteq> []" "\<not> isWhiteSpace (hd s)" "\<not> isWhiteSpace (last s)"
  then have "dropWhile isWhiteSpace s = s" by (cases s) auto
  moreover have "dropWhile isWhiteSpace (rev s) = rev s"
    using a by (cases "rev s") (auto simp: hd_rev)
  ultimately show ?thesis by (simp add: trimString_def)
qed

lemma last_hex_not_space: "v \<noteq> [] \<Longrightarrow> \<not> isWhiteSpace (last (concat (map byteToHex v)))"
proof (induction v rule: rev_induct)
  case Nil
  then show ?case by simp
next
  case (snoc b v)
  have "isRadixDigit 16 (digitChar (unat b mod 16))"
    by (rule isRadixDigit_digitChar) simp_all
  then show ?case
    by (simp add: byteToHex_digits radixDigit16_plain(1))
qed

lemma StringToBigInt_uint8ArrayToHex:
  assumes "v \<noteq> []"
  shows "StringToBigInt (uint8ArrayToHex v) = Some (int (be_value v))"
proof -
  let ?ds = "concat (map byteToHex v)"
  have ne: "?ds \<noteq> []" using assms by (cases v) (auto simp: byteToHex_digits)
  have t: "trimString (''0x'' @ ?ds) = ''0x'' @ ?ds"
  proof (rule trimString_plain)
    show "''0x'' @ ?ds \<noteq> []" by simp
    show "\<not> isWhiteSpace (hd (''0x'' @ ?ds))" by (simp add: isWhiteSpace_def)
    show "\<not> isWhiteSpace (last (''0x'' @ ?ds))"
      unfolding last_appendR[OF ne] by (rule last_hex_not_space[OF assms])
  qed
  have lit: "digitsLiteral 16 ?ds = Some (be_value v)"
    using ne by (simp only: digitsLiteral_def digitsToNat_bytes be_value_def if_False)
  show ?thesis
    using lit by (simp add: StringToBigInt_def uint8ArrayToHex_def t[simplified])
qed

lemma be_value_bound: "be_value u < 256 ^ length u"
proof (induction u rule: rev_induct)
  case Nil
  show ?case by (simp add: be_value_def)
next
  case (snoc b u)
  have lb: "unat b < 256" using unsigned_less[of b] by simp
  from snoc have "be_value u + 1 \<le> 256 ^ length u" by simp
  then have "(be_value u + 1) * 256 \<le> 256 ^ length u * 256" by (rule mult_le_mono1)
  with lb show ?case by (simp add: be_value_snoc)
qed

lemma hex_roundtrip:
  assumes "length v = 32"
  shows "hexToUint8Array (uint8ArrayToHex v) = Inr v"
proof -
  from assms have ne: "v \<noteq> []" by auto
  have p: "StringToBigInt (uint8ArrayToHex v) = Some (int (be_value v))"
    by (rule StringToBigInt_uint8ArrayToHex[OF ne])
  have "be_value v < 256 ^ 32" using be_value_bound[of v] assms by simp
  then have b: "int (be_value v) < 2 ^ 256" by simp
  obtain u where u: "hexToUint8Array (uint8ArrayToHex v) = Inr u" "length u = 32"
      "be_value u = nat (int (be_value v))"
    using hexToUint8Array_fits[OF p _ b] by auto
  then have "u = v" using assms by (intro be_value_inj) simp_all
  with u show ?thesis by simp
qed

section \<open>The conversions between bytes and hexadecimal strings\<close>

text \<open>
  C3. A buffer of 32 bytes that is written as a hexadecimal string by \<^verbatim>\<open>uint8ArrayToHex\<close>
  and read back by \<^verbatim>\<open>hexToUint8Array\<close> comes back unchanged, and the reading throws nothing.
\<close>

theorem hexToUint8Array_uint8ArrayToHex:
  assumes "length v = 32"
  shows "hexToUint8Array (uint8ArrayToHex v) = Inr v"
  using assms by (rule hex_roundtrip)

theorem hexToUint8Array_uint8ArrayToHex_witness:
  "length (map word_of_nat [100..<132] :: bytes) = 32 \<and>
   hexToUint8Array (uint8ArrayToHex (map word_of_nat [100..<132])) = Inr (map word_of_nat [100..<132])"
  using hexToUint8Array_uint8ArrayToHex [of "map word_of_nat [100..<132]"] by simp

lemma hexToUint8Array_wide:
  assumes p: "StringToBigInt s = Some v" and v: "2 ^ 256 \<le> v"
  shows "64 < length (bigintToString 16 v) \<and>
         (\<exists>u. hexToUint8Array s = Inr u \<and> length u = length (bigintToString 16 v) div 2 \<and>
              be_value u = nat v div 16 ^ (length (bigintToString 16 v) mod 2))"
proof -
  have v0: "0 \<le> v" using v by (smt (verit) zero_le_power)
  have "\<not> nat v < 16 ^ 64" using v by (simp add: nat_less_iff)
  then have l: "64 < length (toRadixString 16 (nat v))"
    using length_toRadixString_le[of 16 64 "nat v"] by simp
  then have "sanitised_hex v = bigintToString 16 v"
    using v0 by (simp add: sanitised_hex_def padStart_def bigintToString_def)
  moreover have "bigintToString 16 v = toRadixString 16 (nat v)"
    using v0 by (simp add: bigintToString_def)
  ultimately show ?thesis using hexToUint8Array_nonneg[OF p v0] l by simp
qed

lemma digitsToNat_replicate_zero:
  "digitsToNat 16 acc (replicate k CHR ''0'') = Some (acc * 16 ^ k)"
  by (induction k arbitrary: acc) (simp_all add: digitValue_def)

lemma sanitised_hex_fits:
  assumes "0 \<le> v" "v < 2 ^ 256"
  shows "length (sanitised_hex v) = 64"
proof -
  have "nat v < 16 ^ 64" using assms by (simp add: nat_less_iff)
  then have "length (toRadixString 16 (nat v)) \<le> 64"
    by (simp add: length_toRadixString_le)
  then show ?thesis using sanitised_hex_nonneg(3)[OF assms(1)] by simp
qed

lemma StringToBigInt_power:
  "StringToBigInt (''0x1'' @ replicate k CHR ''0'') = Some (16 ^ k)"
proof -
  have "trimString (''0x1'' @ replicate k CHR ''0'') = ''0x1'' @ replicate k CHR ''0''"
    by (rule trimString_plain) (simp_all add: isWhiteSpace_def)
  then show ?thesis
    by (simp add: StringToBigInt_def digitsLiteral_def digitValue_def digitsToNat_replicate_zero)
qed

lemma foldl_bytes_zeros:
  "foldl (\<lambda>a b. a * 256 + unat b) acc (replicate k (0::byte)) = acc * 256 ^ k"
  by (induction k arbitrary: acc) simp_all

text \<open>
  C7 as stated fails: a value of 66 hexadecimal digits comes back as 33 bytes that denote the
  whole value, so the result is neither 32 bytes long nor wrong.
\<close>

theorem hexToUint8Array_wide_not_32_bytes:
  "hexToUint8Array (''0x1'' @ replicate 65 CHR ''0'') = Inr (16 # replicate 32 0) \<and>
   length (16 # replicate 32 (0::byte)) = 33 \<and>
   be_value (16 # replicate 32 0) = 16 ^ 65"
proof -
  let ?s = "''0x1'' @ replicate 65 CHR ''0''"
  let ?v = "16 ^ 65 :: int"
  have v: "2 ^ 256 \<le> ?v" by simp
  have n: "nat ?v = 16 ^ 65" by simp
  have "\<not> (16::nat) ^ 65 < 16 ^ 65" by simp
  then have lo: "\<not> length (toRadixString 16 (16 ^ 65)) \<le> 65"
    using length_toRadixString_le[of 16 65 "16 ^ 65"] by simp
  have "(16::nat) ^ 65 < 16 ^ 66" by simp
  then have hi: "length (toRadixString 16 (16 ^ 65)) \<le> 66"
    using length_toRadixString_le[of 16 66 "16 ^ 65"] by simp
  have len: "length (bigintToString 16 ?v) = 66"
    using lo hi by (simp add: bigintToString_def n del: power_strict_increasing_iff)
  obtain u where u: "hexToUint8Array ?s = Inr u" "length u = 33" "be_value u = 16 ^ 65"
    using hexToUint8Array_wide[OF StringToBigInt_power v] unfolding len n by auto
  have b: "be_value (16 # replicate 32 0) = 16 ^ 65"
    by (simp add: be_value_def foldl_bytes_zeros)
  with u have "u = 16 # replicate 32 0"
    by (intro be_value_inj) simp_all
  with u b show ?thesis by simp
qed

text \<open>
  C7, amended. For an input whose value needs \<open>n > 64\<close> hexadecimal digits,
  \<^verbatim>\<open>hexToUint8Array\<close> throws nothing and returns \<open>n div 2\<close> bytes, the leading bytes of the
  digits: they denote the whole value when \<open>n\<close> is even, and the value without its last
  digit when \<open>n\<close> is odd.
\<close>

theorem hexToUint8Array_too_wide:
  assumes "StringToBigInt hex = Some v" and "2 ^ 256 \<le> v"
  shows "64 < length (bigintToString 16 v) \<and>
         (\<exists>u. hexToUint8Array hex = Inr u \<and> length u = length (bigintToString 16 v) div 2 \<and>
              be_value u = nat v div 16 ^ (length (bigintToString 16 v) mod 2))"
  using assms by (rule hexToUint8Array_wide)

theorem hexToUint8Array_too_wide_witness:
  "StringToBigInt (''0x1'' @ replicate 64 CHR ''0'') = Some (16 ^ 64) \<and> (2 ^ 256 :: int) \<le> 16 ^ 64 \<and>
   64 < length (bigintToString 16 (16 ^ 64)) \<and>
   (\<exists>u. hexToUint8Array (''0x1'' @ replicate 64 CHR ''0'') = Inr u \<and>
        length u = length (bigintToString 16 (16 ^ 64)) div 2 \<and>
        be_value u = nat (16 ^ 64) div 16 ^ (length (bigintToString 16 (16 ^ 64)) mod 2))"
proof -
  have p: "StringToBigInt (''0x1'' @ replicate 64 CHR ''0'') = Some (16 ^ 64)"
    by (rule StringToBigInt_power)
  have v: "(2 ^ 256 :: int) \<le> 16 ^ 64" by simp
  from hexToUint8Array_too_wide [OF p v] p v show ?thesis by blast
qed

text \<open>
  C8 as stated fails: a hexadecimal string without the prefix is not read as hexadecimal.
  \<^verbatim>\<open>ff\<close> denotes 255, which fits in 32 bytes, and \<^verbatim>\<open>BigInt\<close> throws a SyntaxError on it.
\<close>

theorem hexToUint8Array_unprefixed:
  "digitsToNat 16 0 ''ff'' = Some 255 \<and> hexToUint8Array ''ff'' = Inl SyntaxError"
  by (simp add: hexToUint8Array_def BigInt_def StringToBigInt_def trimString_def isWhiteSpace_def
        signedInteger_def digitsLiteral_def digitValue_def)

lemma digitsToNat_hex_total:
  "list_all (isRadixDigit 16) ds \<Longrightarrow> \<exists>n. digitsToNat 16 acc ds = Some n"
proof (induction ds arbitrary: acc)
  case Nil
  show ?case by simp
next
  case (Cons c ds)
  then obtain d where d: "digitValue c = Some d" "d < 16"
    by (auto simp: isRadixDigit_iff)
  from Cons obtain n where "digitsToNat 16 (acc * 16 + d) ds = Some n" by fastforce
  with d show ?case by simp
qed

lemma StringToBigInt_prefixed:
  assumes ne: "ds \<noteq> []" and dig: "list_all (isRadixDigit 16) ds"
    and p: "p = ''0x'' \<or> p = ''0X''"
  shows "StringToBigInt (p @ replicate k CHR ''0'' @ ds) = map_option int (digitsToNat 16 0 ds)"
proof -
  let ?r = "replicate k CHR ''0'' @ ds"
  have r: "?r \<noteq> []" using ne by simp
  have "last ds \<in> set ds" using ne by simp
  with dig have "isRadixDigit 16 (last ds)" by (simp add: list_all_iff)
  then have nl: "\<not> isWhiteSpace (last ds)" by (rule radixDigit16_plain(1))
  have t: "trimString (p @ ?r) = p @ ?r"
  proof (rule trimString_plain)
    show "p @ ?r \<noteq> []" using ne by simp
    show "\<not> isWhiteSpace (hd (p @ ?r))" using p by (auto simp: isWhiteSpace_def)
    show "\<not> isWhiteSpace (last (p @ ?r))" using ne nl by simp
  qed
  have lit: "digitsLiteral 16 ?r = digitsToNat 16 0 ds"
    using r by (simp only: digitsLiteral_def digitsToNat_zeros if_False)
  from p show ?thesis
  proof
    assume "p = ''0x''"
    then show ?thesis
      using lit t by (simp add: StringToBigInt_def)
  next
    assume "p = ''0X''"
    then show ?thesis
      using lit t by (simp add: StringToBigInt_def)
  qed
qed

text \<open>
  C8, amended. For every input that \<^verbatim>\<open>BigInt\<close> accepts and whose value is not negative
  and fits in 32 bytes, the padded string has exactly 64 hexadecimal digits and the result is
  the 32-byte big-endian array of the value. Every input made of the prefix \<^verbatim>\<open>0x\<close> or
  \<^verbatim>\<open>0X\<close>, any number of zeros and a run of hexadecimal digits that is not empty, in either
  case, is accepted with the value of its digits, and is converted in this way when that value
  fits in 32 bytes.
\<close>

theorem hexToUint8Array_pads:
  "(StringToBigInt hex = Some v \<and> 0 \<le> v \<and> v < 2 ^ 256 \<longrightarrow>
      length (sanitised_hex v) = 64 \<and> list_all (isRadixDigit 16) (sanitised_hex v) \<and>
      (\<exists>u. hexToUint8Array hex = Inr u \<and> length u = 32 \<and> be_value u = nat v)) \<and>
   (ds \<noteq> [] \<and> list_all (isRadixDigit 16) ds \<and> (p = ''0x'' \<or> p = ''0X'') \<longrightarrow>
      (\<exists>n. digitsToNat 16 0 ds = Some n \<and>
           StringToBigInt (p @ replicate k CHR ''0'' @ ds) = Some (int n) \<and>
           (n < 2 ^ 256 \<longrightarrow>
              length (sanitised_hex (int n)) = 64 \<and>
              list_all (isRadixDigit 16) (sanitised_hex (int n)) \<and>
              (\<exists>u. hexToUint8Array (p @ replicate k CHR ''0'' @ ds) = Inr u \<and> length u = 32 \<and>
                   be_value u = n))))"
proof -
  have general: "length (sanitised_hex w) = 64 \<and> list_all (isRadixDigit 16) (sanitised_hex w) \<and>
      (\<exists>u. hexToUint8Array s = Inr u \<and> length u = 32 \<and> be_value u = nat w)"
    if "StringToBigInt s = Some w" "0 \<le> w" "w < 2 ^ 256" for s w
    using hexToUint8Array_fits[OF that] sanitised_hex_fits[OF that(2,3)]
      sanitised_hex_nonneg(2)[OF that(2)]
    by (simp add: list_all_iff)
  have prefixed: "\<exists>n. digitsToNat 16 0 ds = Some n \<and>
           StringToBigInt (p @ replicate k CHR ''0'' @ ds) = Some (int n) \<and>
           (n < 2 ^ 256 \<longrightarrow>
              length (sanitised_hex (int n)) = 64 \<and>
              list_all (isRadixDigit 16) (sanitised_hex (int n)) \<and>
              (\<exists>u. hexToUint8Array (p @ replicate k CHR ''0'' @ ds) = Inr u \<and> length u = 32 \<and>
                   be_value u = n))"
    if ne: "ds \<noteq> []" and dig: "list_all (isRadixDigit 16) ds" and p: "p = ''0x'' \<or> p = ''0X''"
  proof -
    from digitsToNat_hex_total[OF dig] obtain n where n: "digitsToNat 16 0 ds = Some n" by blast
    have s: "StringToBigInt (p @ replicate k CHR ''0'' @ ds) = Some (int n)"
      using StringToBigInt_prefixed[OF ne dig p, of k] n by simp
    have "length (sanitised_hex (int n)) = 64 \<and>
          list_all (isRadixDigit 16) (sanitised_hex (int n)) \<and>
          (\<exists>u. hexToUint8Array (p @ replicate k CHR ''0'' @ ds) = Inr u \<and> length u = 32 \<and>
               be_value u = n)" if "n < 2 ^ 256"
    proof -
      from that have "int n < 2 ^ 256" by (simp add: of_nat_less_numeral_power_cancel_iff)
      from general[OF s _ this] show ?thesis by simp
    qed
    with n s show ?thesis by blast
  qed
  from general prefixed show ?thesis by blast
qed

theorem hexToUint8Array_pads_witness:
  "StringToBigInt ''0x000fF'' = Some 255 \<and> (0::int) \<le> 255 \<and> (255::int) < 2 ^ 256 \<and>
   length (sanitised_hex 255) = 64 \<and> list_all (isRadixDigit 16) (sanitised_hex 255) \<and>
   (\<exists>u. hexToUint8Array ''0x000fF'' = Inr u \<and> length u = 32 \<and> be_value u = nat 255) \<and>
   ''fF'' \<noteq> [] \<and> list_all (isRadixDigit 16) ''fF'' \<and>
   digitsToNat 16 0 ''fF'' = Some 255 \<and> (255::nat) < 2 ^ 256 \<and>
   StringToBigInt (''0X'' @ replicate 3 CHR ''0'' @ ''fF'') = Some 255 \<and>
   (\<exists>u. hexToUint8Array (''0X'' @ replicate 3 CHR ''0'' @ ''fF'') = Inr u \<and> length u = 32 \<and>
        be_value u = 255)"
proof -
  have p: "StringToBigInt ''0x000fF'' = Some 255"
    by (simp add: StringToBigInt_def trimString_def isWhiteSpace_def digitsLiteral_def digitValue_def)
  have a: "(0::int) \<le> 255" and b: "(255::int) < 2 ^ 256" by simp_all
  have ne: "''fF'' \<noteq> []" by simp
  have dig: "list_all (isRadixDigit 16) ''fF''"
    by (simp add: isRadixDigit_def digitValue_def)
  have n: "digitsToNat 16 0 ''fF'' = Some 255"
    by (simp add: digitValue_def)
  have c: "(255::nat) < 2 ^ 256" by simp
  note inst = hexToUint8Array_pads [of "''0x000fF''" 255 "''fF''" "''0X''" 3]
  from inst p a b have first:
    "length (sanitised_hex 255) = 64 \<and> list_all (isRadixDigit 16) (sanitised_hex 255) \<and>
     (\<exists>u. hexToUint8Array ''0x000fF'' = Inr u \<and> length u = 32 \<and> be_value u = nat 255)"
    by blast
  from inst ne dig obtain m where m: "digitsToNat 16 0 ''fF'' = Some m"
    "StringToBigInt (''0X'' @ replicate 3 CHR ''0'' @ ''fF'') = Some (int m)"
    "m < 2 ^ 256 \<longrightarrow>
       (\<exists>u. hexToUint8Array (''0X'' @ replicate 3 CHR ''0'' @ ''fF'') = Inr u \<and> length u = 32 \<and>
            be_value u = m)"
    by blast
  from m(1) n have "m = 255" by simp
  with m c have second:
    "StringToBigInt (''0X'' @ replicate 3 CHR ''0'' @ ''fF'') = Some 255 \<and>
     (\<exists>u. hexToUint8Array (''0X'' @ replicate 3 CHR ''0'' @ ''fF'') = Inr u \<and> length u = 32 \<and>
          be_value u = 255)"
    by simp
  from first second p a b ne dig n c show ?thesis by blast
qed

section \<open>Flattening\<close>

lemma foldl_length_sum:
  "foldl (\<lambda>acc val. acc + length val) n arrays = n + length (concat arrays)"
  by (induction arrays arbitrary: n) simp_all

lemma flattenLoop_concat:
  "offset + length (concat arrays) \<le> length result \<Longrightarrow>
   flattenLoop arrays offset result =
     Inr (take offset result @ concat arrays @ drop (offset + length (concat arrays)) result)"
proof (induction arrays arbitrary: offset result)
  case Nil
  then show ?case by simp
next
  case (Cons arr arrays)
  let ?r = "take offset result @ arr @ drop (offset + length arr) result"
  have fit: "\<not> offset + length arr > length result" using Cons.prems by simp
  have len: "length ?r = length result" using Cons.prems by simp
  have set: "typedArraySet result arr offset = Inr ?r"
    using fit by (simp add: typedArraySet_def)
  have "(offset + length arr) + length (concat arrays) \<le> length ?r"
    using Cons.prems len by simp
  from Cons.IH[OF this]
  have "flattenLoop arrays (offset + length arr) ?r =
          Inr (take (offset + length arr) ?r @ concat arrays @
               drop (offset + length arr + length (concat arrays)) ?r)" .
  moreover have "take (offset + length arr) ?r = take offset result @ arr"
    using Cons.prems by simp
  moreover have "drop (offset + length arr + length (concat arrays)) ?r =
                 drop (offset + length arr + length (concat arrays)) result"
    using Cons.prems by (simp add: add.commute)
  ultimately show ?case using set by (simp add: add.assoc)
qed

lemma flattenUint8Arrays_concat: "flattenUint8Arrays arrays = Inr (concat arrays)"
  using flattenLoop_concat[of 0 arrays "replicate (length (concat arrays)) 0"]
  by (simp add: flattenUint8Arrays_def foldl_length_sum)

lemma concat_nth_segment:
  assumes "i < length arrays"
  shows "take (length (arrays ! i)) (drop (sum_list (map length (take i arrays))) (concat arrays)) =
         arrays ! i"
proof -
  have "arrays = take i arrays @ arrays ! i # drop (Suc i) arrays"
    using assms by (simp add: id_take_nth_drop)
  then have "concat arrays = concat (take i arrays) @ arrays ! i @ concat (drop (Suc i) arrays)"
    by (metis concat.simps(2) concat_append)
  moreover have "sum_list (map length (take i arrays)) = length (concat (take i arrays))"
    by (simp add: length_concat)
  ultimately show ?thesis by simp
qed

text \<open>
  C9. \<^verbatim>\<open>flattenUint8Arrays\<close> returns the arrays one behind the other: the length of the
  result is the sum of the lengths, and the \<open>i\<close>-th array stands at the offset that is the
  total length of the arrays before it.
\<close>

theorem flattenUint8Arrays_in_order:
  "flattenUint8Arrays arrays = Inr (concat arrays) \<and>
   length (concat arrays) = sum_list (map length arrays) \<and>
   (\<forall>i < length arrays.
      take (length (arrays ! i)) (drop (sum_list (map length (take i arrays))) (concat arrays)) =
      arrays ! i)"
  by (simp add: flattenUint8Arrays_concat length_concat concat_nth_segment)

theorem flattenUint8Arrays_in_order_witness:
  "flattenUint8Arrays [[1, 2], [], [3]] = Inr [1, 2, 3] \<and>
   (2::nat) < length [[1, 2], [], [3 :: byte]] \<and>
   take (length ([[1, 2], [], [3 :: byte]] ! 2))
     (drop (sum_list (map length (take 2 [[1, 2], [], [3 :: byte]]))) (concat [[1, 2], [], [3]])) = [3]"
  using flattenUint8Arrays_in_order [of "[[1, 2], [], [3]]"] by simp

section \<open>The life of a backend\<close>

lemma instantiate_set: "api b = Some a \<Longrightarrow> instantiate N b calls = (Inr (), b, calls)"
  by (simp add: instantiate_def)

lemma instantiate_Inr_api:
  "instantiate N b calls = (Inr (), b', calls') \<Longrightarrow> api b' \<noteq> None"
  by (auto simp: instantiate_def Let_def invoke_def split: if_splits sum.splits prod.splits)

lemma instantiate_fresh:
  assumes "api b = None" "instantiate N b calls = (Inr (), b', calls')"
  shows "\<exists>a subgroupSize g1 points g2 composer.
           calls' = calls @
             [ImportBB,
              BarretenbergNew (threads (options b)),
              AcirGetCircuitSizes a (acirUncompressedBytecode b),
              CrsNew (subgroupSize + 1),
              CommonInitSlabAllocator a subgroupSize,
              SrsInitSrs a g1 points g2,
              AcirNewAcirComposer a subgroupSize,
              AcirInitProvingKey a (Some composer) (acirUncompressedBytecode b)] \<and>
           b' = b\<lparr>acirComposer := Some composer, api := Some a\<rparr>"
  using assms
  by (auto simp: instantiate_def Let_def invoke_def split: if_splits sum.splits prod.splits)

lemma perform_set: "api b = Some a \<Longrightarrow> fst (perform N op (b, calls)) = b"
  by (cases op)
     (auto simp: instantiate_set generateFinalProof_def generateIntermediateProof_def
        generateProof_def generateIntermediateProofArtifacts_def verifyFinalProof_def
        verifyIntermediateProof_def verifyProof_def destroy_def invoke_def
        split: sum.splits prod.splits option.splits)

lemma performAll_set: "api b = Some a \<Longrightarrow> fst (performAll N ops (b, calls)) = b"
proof (induction ops arbitrary: calls)
  case Nil
  show ?case by (simp add: performAll_def)
next
  case (Cons op ops)
  obtain b1 c1 where p: "perform N op (b, calls) = (b1, c1)" by (cases "perform N op (b, calls)")
  with perform_set[OF Cons.prems, of N op calls] have "b1 = b" by simp
  with p Cons show ?case by (simp add: performAll_def)
qed

lemma destroy_set:
  "api b = Some a \<Longrightarrow> snd (destroy N b calls) = (b, calls @ [ApiDestroy a])"
  by (auto simp: destroy_def invoke_def split: sum.splits prod.splits)

lemma instantiate_example:
  "instantiate exampleNative exampleBackend [] = (Inr (), exampleInstantiated, exampleSetupCalls)"
  by (simp add: instantiate_def invoke_def exampleNative_def exampleBackend_def
        exampleInstantiated_def exampleSetupCalls_def Let_def)

text \<open>
  C5. When a call of \<^verbatim>\<open>instantiate\<close> has completed, a second call makes no native call and
  leaves the backend as it is. Starting from a backend without api handle, the calls made by
  the two calls together are the eight of one setup, each once.
\<close>

theorem instantiate_idempotent:
  assumes "instantiate N b calls = (Inr (), b', calls')"
  shows "instantiate N b' calls' = (Inr (), b', calls') \<and>
         (api b = None \<longrightarrow>
            (\<exists>a subgroupSize g1 points g2 composer.
               snd (snd (instantiate N b' calls')) = calls @
                 [ImportBB,
                  BarretenbergNew (threads (options b)),
                  AcirGetCircuitSizes a (acirUncompressedBytecode b),
                  CrsNew (subgroupSize + 1),
                  CommonInitSlabAllocator a subgroupSize,
                  SrsInitSrs a g1 points g2,
                  AcirNewAcirComposer a subgroupSize,
                  AcirInitProvingKey a (Some composer) (acirUncompressedBytecode b)]))"
proof -
  from instantiate_Inr_api[OF assms] obtain a where "api b' = Some a" by auto
  then have again: "instantiate N b' calls' = (Inr (), b', calls')"
    by (rule instantiate_set)
  show ?thesis
  proof (cases "api b = None")
    case True
    from instantiate_fresh[OF True assms] again show ?thesis by auto
  next
    case False
    with again show ?thesis by auto
  qed
qed

theorem instantiate_idempotent_witness:
  "instantiate exampleNative exampleBackend [] = (Inr (), exampleInstantiated, exampleSetupCalls) \<and>
   api exampleBackend = None \<and>
   instantiate exampleNative exampleInstantiated exampleSetupCalls =
     (Inr (), exampleInstantiated, exampleSetupCalls)"
  using instantiate_idempotent [OF instantiate_example] instantiate_example
  by (simp add: exampleBackend_def)

text \<open>
  C6. \<^verbatim>\<open>destroy\<close> on a backend whose api handle was never set returns without an exception,
  makes no native call and leaves the backend as it is.
\<close>

theorem destroy_uninstantiated:
  "api b = None \<Longrightarrow> destroy N b calls = (Inr (), b, calls)"
  by (simp add: destroy_def)

theorem destroy_uninstantiated_witness:
  "api exampleBackend = None \<and> destroy exampleNative exampleBackend [] = (Inr (), exampleBackend, [])"
proof -
  have h: "api exampleBackend = None" by (simp add: exampleBackend_def)
  from destroy_uninstantiated [OF h] h show ?thesis by simp
qed

text \<open>
  C10. Once the api handle is set it stays set, and the backend stays as it is, whatever
  operations follow. \<^verbatim>\<open>destroy\<close> calls the native \<^verbatim>\<open>destroy\<close> and does not clear the handle:
  an \<^verbatim>\<open>instantiate\<close> after it makes no call, and a second \<^verbatim>\<open>destroy\<close> calls the native
  \<^verbatim>\<open>destroy\<close> again.
\<close>

theorem api_stays_set:
  assumes "api b = Some a"
  shows "api (fst (performAll N ops (b, calls))) = Some a \<and>
         snd (destroy N b calls) = (b, calls @ [ApiDestroy a]) \<and>
         instantiate N b (calls @ [ApiDestroy a]) = (Inr (), b, calls @ [ApiDestroy a]) \<and>
         snd (destroy N b (calls @ [ApiDestroy a])) = (b, calls @ [ApiDestroy a, ApiDestroy a])"
  using assms performAll_set[OF assms, of N ops calls] destroy_set[OF assms, of N]
    instantiate_set[OF assms, of N]
  by simp

theorem api_stays_set_witness:
  "api exampleInstantiated = Some 1 \<and>
   api (fst (performAll exampleNative [Destroy, Instantiate, GenerateFinalProof [], Destroy]
               (exampleInstantiated, exampleSetupCalls))) = Some 1 \<and>
   snd (destroy exampleNative exampleInstantiated exampleSetupCalls) =
     (exampleInstantiated, exampleSetupCalls @ [ApiDestroy 1]) \<and>
   instantiate exampleNative exampleInstantiated (exampleSetupCalls @ [ApiDestroy 1]) =
     (Inr (), exampleInstantiated, exampleSetupCalls @ [ApiDestroy 1]) \<and>
   snd (destroy exampleNative exampleInstantiated (exampleSetupCalls @ [ApiDestroy 1])) =
     (exampleInstantiated, exampleSetupCalls @ [ApiDestroy 1, ApiDestroy 1])"
proof -
  have h: "api exampleInstantiated = Some 1"
    by (simp add: exampleInstantiated_def)
  from api_stays_set [OF h] h show ?thesis by simp
qed

section \<open>The default sort and the set of witness indices\<close>

lemma codeUnitLess_less: "codeUnitLess xs ys = (xs < ys)"
  by (induction xs ys rule: codeUnitLess.induct) (simp_all add: less_char_def)

lemma numberToString_inj: "inj (numberToString 10)"
proof (rule injI)
  fix x y assume "numberToString 10 x = numberToString 10 y"
  then have "digitsToNat 10 0 (toRadixString 10 x) = digitsToNat 10 0 (toRadixString 10 y)"
    by (simp add: numberToString_def)
  then show "x = y" by (simp add: digitsToNat_toRadixString)
qed

lemma sortInsert_insort: "sortInsert x ys = insort_key (numberToString 10) x ys"
  by (induction ys) (auto simp: codeUnitLess_less)

lemma defaultSort_sort_key: "defaultSort xs = sort_key (numberToString 10) xs"
  by (induction xs) (simp_all add: defaultSort_def sortInsert_insort)

lemma defaultSort_set: "set (defaultSort xs) = set xs"
  by (simp add: defaultSort_sort_key)

lemma defaultSort_distinct: "distinct (defaultSort xs) = distinct xs"
  by (simp add: defaultSort_sort_key)

lemma defaultSort_length: "length (defaultSort xs) = length xs"
  by (simp add: defaultSort_sort_key)

lemma defaultSort_idem: "defaultSort (defaultSort xs) = defaultSort xs"
  by (simp add: defaultSort_sort_key sort_key_id_if_sorted)

lemma defaultSort_unique:
  assumes "distinct xs" "distinct ys" "set xs = set ys"
  shows "defaultSort xs = defaultSort ys"
proof -
  have "mset xs = mset ys" using assms by (simp add: set_eq_iff_mset_eq_distinct)
  then have "mset xs = mset (sort_key (numberToString 10) ys)" by simp
  moreover have "inj_on (numberToString 10) (set xs)"
    using numberToString_inj by (rule inj_on_subset) simp
  moreover have "sorted (map (numberToString 10) (sort_key (numberToString 10) ys))"
    by simp
  ultimately have "sort_key (numberToString 10) xs = sort_key (numberToString 10) ys"
    by (rule sort_key_inj_key_eq)
  then show ?thesis by (simp add: defaultSort_sort_key)
qed

lemma setAdd_fold: "distinct acc \<Longrightarrow>
  distinct (foldl setAdd acc xs) \<and> set (foldl setAdd acc xs) = set acc \<union> set xs"
  by (induction xs arbitrary: acc) (auto simp: setAdd_def)

lemma arrayFromSet_distinct: "distinct (arrayFromSet xs)" and arrayFromSet_set: "set (arrayFromSet xs) = set xs"
  using setAdd_fold[of "[]" xs] by (simp_all add: arrayFromSet_def)

lemma public_input_witnesses_distinct:
  "public_input_witnesses a = Inr ws \<Longrightarrow> distinct ws \<and> defaultSort ws = ws"
  by (auto simp: public_input_witnesses_def defaultSort_distinct arrayFromSet_distinct defaultSort_idem
      split: sum.splits)

section \<open>Splitting and reassembling the combined proof\<close>

lemma typedArraySlice_chunk:
  assumes "i < length p"
  shows "typedArraySlice p (int i) (int (i + n)) = take n (drop i p)"
proof -
  have k: "relativeIndex (length p) (int i) = i"
    using assms by (simp add: relativeIndex_def)
  have f: "relativeIndex (length p) (int (i + n)) = min (i + n) (length p)"
    unfolding relativeIndex_def by (simp only: nat_int of_nat_less_0_iff if_False)
  have "take (min (i + n) (length p) - i) (drop i p) = take n (drop i p)"
    using assms by (cases "i + n \<le> length p") (simp_all add: min_def)
  then show ?thesis
    unfolding typedArraySlice_def Let_def k f .
qed

lemma chunkLoop_done: "\<not> i < length p \<Longrightarrow> chunkLoop p i acc = acc"
  by (subst chunkLoop.simps) simp

lemma chunkLoop_step:
  "i < length p \<Longrightarrow>
   chunkLoop p i acc = chunkLoop p (i + 32) (acc @ [take 32 (drop i p)])"
  by (subst chunkLoop.simps) (simp only: typedArraySlice_chunk publicInputSize_def if_True)

text \<open>The number of chunks: the length divided by 32, rounded up.\<close>

lemma chunkLoop_map:
  "chunkLoop p (32 * k) acc =
     acc @ map (\<lambda>j. take 32 (drop (32 * j) p)) [k..<(length p + 31) div 32]"
proof (induction "(length p + 31) div 32 - k" arbitrary: k acc)
  case 0
  then have "\<not> 32 * k < length p" by simp
  moreover from 0 have "[k..<(length p + 31) div 32] = []" by simp
  ultimately show ?case by (simp add: chunkLoop_done)
next
  case (Suc m)
  then have lt: "k < (length p + 31) div 32" by simp
  then have c: "32 * k < length p" by simp
  have m: "m = (length p + 31) div 32 - Suc k" using Suc.hyps by simp
  have e: "32 * Suc k = 32 * k + 32" by simp
  have "chunkLoop p (32 * k) acc = chunkLoop p (32 * Suc k) (acc @ [take 32 (drop (32 * k) p)])"
    unfolding e by (rule chunkLoop_step[OF c])
  also have "\<dots> = (acc @ [take 32 (drop (32 * k) p)]) @
                 map (\<lambda>j. take 32 (drop (32 * j) p)) [Suc k..<(length p + 31) div 32]"
    by (rule Suc.hyps(1)[OF m])
  finally show ?case using lt by (simp add: upt_conv_Cons)
qed

lemma chunkLoop_chunks:
  "chunkLoop p 0 [] = map (\<lambda>j. take 32 (drop (32 * j) p)) [0..<(length p + 31) div 32]"
  using chunkLoop_map[of p 0 "[]"] by simp

lemma mapSet_new: "k \<notin> fst ` set m \<Longrightarrow> mapSet m k v = m @ [(k, v)]"
  by (simp add: mapSet_def)

lemma fillPublicInputs_zip:
  assumes "distinct ws" "set ws \<inter> fst ` set m = {}" "index \<le> length chunks"
  shows "fillPublicInputs chunks ws index m =
           (if index + length ws \<le> length chunks
            then Inr (m @ map (\<lambda>j. (ws ! j, uint8ArrayToHex (chunks ! (index + j)))) [0..<length ws])
            else Inl TypeError)"
  using assms
proof (induction ws arbitrary: index m)
  case Nil
  then show ?case by simp
next
  case (Cons w ws)
  show ?case
  proof (cases "index < length chunks")
    case False
    moreover have "length (w # ws) = Suc (length ws)" by simp
    ultimately have "\<not> index + length (w # ws) \<le> length chunks" by linarith
    with False show ?thesis by (simp only: fillPublicInputs.simps if_False)
  next
    case True
    let ?m = "m @ [(w, uint8ArrayToHex (chunks ! index))]"
    have new: "mapSet m w (uint8ArrayToHex (chunks ! index)) = ?m"
      using Cons.prems by (intro mapSet_new) auto
    have d: "distinct ws" and i: "set ws \<inter> fst ` set ?m = {}"
      using Cons.prems by auto
    have shift: "map (\<lambda>j. ((w # ws) ! j, uint8ArrayToHex (chunks ! (index + j)))) [0..<length (w # ws)] =
          (w, uint8ArrayToHex (chunks ! index)) #
          map (\<lambda>j. (ws ! j, uint8ArrayToHex (chunks ! (index + 1 + j)))) [0..<length ws]"
      by (simp add: upt_conv_Cons map_Suc_upt[symmetric] del: upt_Suc)
    have le: "index + 1 \<le> length chunks" using True by simp
    show ?thesis
      using True Cons.IH[OF d i le] new shift by auto
  qed
qed

lemma split_slices:
  assumes "2144 \<le> length x"
  shows "typedArraySlice x 0 (int (length x) - int numBytesInProofWithoutPublicInputs) =
           take (length x - 2144) x"
    and "typedArraySliceFrom x (int (length x) - int numBytesInProofWithoutPublicInputs) =
           drop (length x - 2144) x"
  using assms
  by (auto simp: typedArraySlice_def typedArraySliceFrom_def relativeIndex_def Let_def
        numBytesInProofWithoutPublicInputs_def min_def nat_diff_distrib)

lemma splitProofWithPublicInputs_long:
  assumes len: "2144 \<le> length x" and ws: "public_input_witnesses a = Inr ws"
  shows "splitProofWithPublicInputs a x =
           (if length ws \<le> (length x - 2144 + 31) div 32
            then Inr \<lparr>proof' = drop (length x - 2144) x,
                      publicInputs =
                        map (\<lambda>j. (ws ! j, uint8ArrayToHex (take 32 (drop (32 * j) (take (length x - 2144) x)))))
                          [0..<length ws]\<rparr>
            else Inl TypeError)"
proof -
  define p where "p = take (length x - 2144) x"
  define n where "n = (length p + 31) div 32"
  define chunks where "chunks = map (\<lambda>j. take 32 (drop (32 * j) p)) [0..<n]"
  have d: "distinct ws" using public_input_witnesses_distinct[OF ws] by simp
  have lp: "length p = length x - 2144" by (simp add: p_def)
  have lc: "length chunks = n" by (simp add: chunks_def)
  have cl: "chunkLoop p 0 [] = chunks"
    by (simp only: chunkLoop_chunks chunks_def n_def)
  have fill: "fillPublicInputs chunks ws 0 [] =
        (if length ws \<le> n
         then Inr (map (\<lambda>j. (ws ! j, uint8ArrayToHex (chunks ! j))) [0..<length ws])
         else Inl TypeError)"
    using fillPublicInputs_zip[OF d, where m="[]" and chunks=chunks and index=0] lc by simp
  have nth: "map (\<lambda>j. (ws ! j, uint8ArrayToHex (chunks ! j))) [0..<length ws] =
             map (\<lambda>j. (ws ! j, uint8ArrayToHex (take 32 (drop (32 * j) p)))) [0..<length ws]"
    if "length ws \<le> n"
  proof (rule map_cong[OF refl])
    fix j assume "j \<in> set [0..<length ws]"
    with that have "j < n" by simp
    then show "(ws ! j, uint8ArrayToHex (chunks ! j)) =
               (ws ! j, uint8ArrayToHex (take 32 (drop (32 * j) p)))"
      by (simp add: chunks_def)
  qed
  have "splitProofWithPublicInputs a x =
          (case fillPublicInputs chunks ws 0 [] of
             Inl e \<Rightarrow> Inl e
           | Inr m \<Rightarrow> Inr \<lparr>proof' = drop (length x - 2144) x, publicInputs = m\<rparr>)"
    unfolding splitProofWithPublicInputs_def Let_def split_slices[OF len] ws
    by (simp only: cl p_def[symmetric] sum.case)
  then show ?thesis
    using nth by (simp add: fill n_def lp p_def[symmetric])
qed

lemma mapE_all_Inr: "(\<And>x. x \<in> set xs \<Longrightarrow> f x = Inr (g x)) \<Longrightarrow> mapE f xs = Inr (map g xs)"
  by (induction xs) simp_all

lemma concat_chunks: "concat (map (\<lambda>j. take 32 (drop (32 * j) p)) [0..<n]) = take (32 * n) p"
proof (induction n)
  case 0
  show ?case by simp
next
  case (Suc n)
  have "take (32 * n) p @ take 32 (drop (32 * n) p) = take (32 * n + 32) p"
    by (simp add: take_add)
  with Suc show ?case by (simp add: add.commute)
qed

lemma chunk_of_concat:
  assumes "\<And>c. c \<in> set cs \<Longrightarrow> length c = 32" "j < length cs"
  shows "take 32 (drop (32 * j) (concat cs)) = cs ! j"
  using assms
proof (induction cs arbitrary: j)
  case Nil
  then show ?case by simp
next
  case (Cons c cs)
  have lc: "length c = 32" using Cons.prems(1) by simp
  show ?case
  proof (cases j)
    case 0
    with lc show ?thesis by simp
  next
    case (Suc i)
    then have "take 32 (drop (32 * i) (concat cs)) = cs ! i"
      using Cons.prems by (intro Cons.IH) auto
    with Suc lc show ?thesis by simp
  qed
qed

lemma length_concat_chunks:
  "(\<And>c. c \<in> set cs \<Longrightarrow> length c = 32) \<Longrightarrow> length (concat cs) = 32 * length cs"
  by (induction cs) simp_all

text \<open>A map whose values are the hexadecimal strings of 32-byte chunks is reassembled from the chunks.\<close>

lemma reconstruct_canonical:
  assumes d: "distinct (map fst kcs)" and l: "\<And>k c. (k, c) \<in> set kcs \<Longrightarrow> length c = 32"
  shows "reconstructProofWithPublicInputs
           \<lparr>proof' = tail, publicInputs = map (\<lambda>(k, c). (k, uint8ArrayToHex c)) kcs\<rparr> =
         Inr (concat (map (\<lambda>k. the (map_of kcs k)) (defaultSort (map fst kcs))) @ tail)"
proof -
  let ?m = "map (\<lambda>(k, c). (k, uint8ArrayToHex c)) kcs"
  let ?f = "\<lambda>index. case mapGet ?m index of None \<Rightarrow> Inl TypeError | Some hex \<Rightarrow> hexToUint8Array hex"
  have keys: "mapKeys ?m = map fst kcs"
    by (simp add: mapKeys_def case_prod_unfold comp_def)
  have each: "?f k = Inr (the (map_of kcs k))" if "k \<in> set (defaultSort (map fst kcs))" for k
  proof -
    from that have "k \<in> fst ` set kcs" by (simp add: defaultSort_set)
    then obtain c where c: "map_of kcs k = Some c"
      by (metis domD dom_map_of_conv_image_fst)
    then have "(k, c) \<in> set kcs" by (rule map_of_SomeD)
    then have "length c = 32" by (rule l)
    moreover have "mapGet ?m k = Some (uint8ArrayToHex c)"
      using c by (simp add: mapGet_def map_of_map)
    ultimately show ?thesis using c by (simp add: hex_roundtrip)
  qed
  have "mapE ?f (defaultSort (map fst kcs)) = Inr (map (\<lambda>k. the (map_of kcs k)) (defaultSort (map fst kcs)))"
    using each by (rule mapE_all_Inr)
  then show ?thesis
    by (simp add: reconstructProofWithPublicInputs_def keys flattenUint8Arrays_concat Let_def)
qed

lemma reconstruct_split:
  assumes ws: "public_input_witnesses a = Inr ws" and len: "length x = 32 * length ws + 2144"
  shows "\<exists>pd. splitProofWithPublicInputs a x = Inr pd \<and> reconstructProofWithPublicInputs pd = Inr x"
proof -
  define n where "n = length ws"
  define p where "p = take (32 * n) x"
  define chunk where "chunk = (\<lambda>j. take 32 (drop (32 * j) p))"
  define kcs where "kcs = map (\<lambda>j. (ws ! j, chunk j)) [0..<n]"
  define pd where "pd = \<lparr>proof' = drop (32 * n) x,
             publicInputs = map (\<lambda>(k, c). (k, uint8ArrayToHex c)) kcs\<rparr>"
  have dw: "distinct ws" and sw: "defaultSort ws = ws"
    using public_input_witnesses_distinct[OF ws] by simp_all
  have long: "2144 \<le> length x" using len by simp
  have lx: "length x - 2144 = 32 * n" using len by (simp add: n_def)
  have lp: "length p = 32 * n" using len by (simp add: p_def n_def)
  have "map (\<lambda>(k, c). (k, uint8ArrayToHex c)) kcs =
        map (\<lambda>j. (ws ! j, uint8ArrayToHex (take 32 (drop (32 * j) p)))) [0..<n]"
    by (simp add: kcs_def chunk_def comp_def)
  then have split: "splitProofWithPublicInputs a x = Inr pd"
    unfolding splitProofWithPublicInputs_long[OF long ws] lx pd_def p_def n_def
    by simp
  have keys: "map fst kcs = ws"
    by (simp add: kcs_def comp_def map_nth n_def)
  have d: "distinct (map fst kcs)" using keys dw by simp
  have lc: "length (chunk j) = 32" if "j < n" for j
    using that lp by (simp add: chunk_def)
  have l: "length c = 32" if "(k, c) \<in> set kcs" for k c
    using that lc by (auto simp: kcs_def)
  have zip: "kcs = zip ws (map chunk [0..<n])"
    unfolding kcs_def by (rule nth_equalityI) (simp_all add: n_def)
  have lookup: "the (map_of kcs (ws ! j)) = chunk j" if "j < n" for j
    using that dw unfolding zip by (simp add: map_of_zip_nth n_def)
  have "map (\<lambda>k. the (map_of kcs k)) ws = map chunk [0..<n]"
    by (rule nth_equalityI) (simp_all add: lookup n_def)
  then have "concat (map (\<lambda>k. the (map_of kcs k)) ws) = take (32 * n) p"
    by (simp only: chunk_def concat_chunks)
  then have "concat (map (\<lambda>k. the (map_of kcs k)) ws) = p"
    using lp by simp
  then have "reconstructProofWithPublicInputs pd = Inr (p @ drop (32 * n) x)"
    using reconstruct_canonical[OF d l, where tail="drop (32 * n) x"]
    by (simp only: keys sw pd_def)
  with split show ?thesis by (auto simp: p_def)
qed

lemma split_reconstruct:
  assumes ws: "public_input_witnesses a = Inr ws"
    and d: "distinct (map fst kcs)"
    and l: "\<And>k c. (k, c) \<in> set kcs \<Longrightarrow> length c = 32"
    and keys: "set (map fst kcs) = set ws"
    and lt: "length tail = 2144"
  shows "\<exists>x. reconstructProofWithPublicInputs
               \<lparr>proof' = tail, publicInputs = map (\<lambda>(k, c). (k, uint8ArrayToHex c)) kcs\<rparr> = Inr x \<and>
             splitProofWithPublicInputs a x =
               Inr \<lparr>proof' = tail,
                    publicInputs = map (\<lambda>k. (k, uint8ArrayToHex (the (map_of kcs k)))) ws\<rparr>"
proof -
  define g where "g = (\<lambda>k. the (map_of kcs k))"
  define cs where "cs = map g ws"
  define x where "x = concat cs @ tail"
  have dw: "distinct ws" and sw: "defaultSort ws = ws"
    using public_input_witnesses_distinct[OF ws] by simp_all
  have sorted: "defaultSort (map fst kcs) = ws"
    using defaultSort_unique[OF d dw keys] sw by simp
  have rec: "reconstructProofWithPublicInputs
               \<lparr>proof' = tail, publicInputs = map (\<lambda>(k, c). (k, uint8ArrayToHex c)) kcs\<rparr> = Inr x"
    using reconstruct_canonical[OF d l, where tail=tail]
    by (simp only: sorted x_def cs_def g_def)
  have lg: "length (g k) = 32" if "k \<in> set ws" for k
  proof -
    from that keys have "k \<in> fst ` set kcs" by simp
    then obtain c where c: "map_of kcs k = Some c"
      by (metis domD dom_map_of_conv_image_fst)
    then have "(k, c) \<in> set kcs" by (rule map_of_SomeD)
    then have "length c = 32" by (rule l)
    with c show ?thesis by (simp add: g_def)
  qed
  have lcs: "length c = 32" if "c \<in> set cs" for c
    using that lg by (auto simp: cs_def)
  have lcat: "length (concat cs) = 32 * length ws"
    using length_concat_chunks[of cs] lcs by (simp add: cs_def)
  have long: "2144 \<le> length x" by (simp add: x_def lt)
  have lx: "length x - 2144 = 32 * length ws" by (simp add: x_def lt lcat)
  have tk: "take (32 * length ws) x = concat cs" and dr: "drop (32 * length ws) x = tail"
    by (simp_all add: x_def lcat)
  have "map (\<lambda>j. (ws ! j, uint8ArrayToHex (take 32 (drop (32 * j) (concat cs))))) [0..<length ws] =
        map (\<lambda>k. (k, uint8ArrayToHex (g k))) ws"
  proof (rule nth_equalityI)
    show "length (map (\<lambda>j. (ws ! j, uint8ArrayToHex (take 32 (drop (32 * j) (concat cs))))) [0..<length ws]) =
          length (map (\<lambda>k. (k, uint8ArrayToHex (g k))) ws)" by simp
  next
    fix j assume "j < length (map (\<lambda>j. (ws ! j, uint8ArrayToHex (take 32 (drop (32 * j) (concat cs))))) [0..<length ws])"
    then have j: "j < length ws" by simp
    then have "take 32 (drop (32 * j) (concat cs)) = cs ! j"
      using chunk_of_concat[of cs j] lcs by (simp add: cs_def)
    then show "map (\<lambda>j. (ws ! j, uint8ArrayToHex (take 32 (drop (32 * j) (concat cs))))) [0..<length ws] ! j =
               map (\<lambda>k. (k, uint8ArrayToHex (g k))) ws ! j"
      using j by (simp add: cs_def)
  qed
  then have "splitProofWithPublicInputs a x =
          Inr \<lparr>proof' = tail, publicInputs = map (\<lambda>k. (k, uint8ArrayToHex (g k))) ws\<rparr>"
    unfolding splitProofWithPublicInputs_long[OF long ws] lx tk dr by simp
  with rec show ?thesis by (auto simp: g_def)
qed

lemma canonical_values:
  "list_all (\<lambda>(k, v). \<exists>c. length c = 32 \<and> v = uint8ArrayToHex c) m \<Longrightarrow>
   \<exists>kcs. m = map (\<lambda>(k, c). (k, uint8ArrayToHex c)) kcs \<and> (\<forall>(k, c) \<in> set kcs. length c = 32)"
proof (induction m)
  case Nil
  show ?case by simp
next
  case (Cons e m)
  obtain k v where e: "e = (k, v)" by (cases e)
  from Cons.prems e obtain c where c: "length c = 32" "v = uint8ArrayToHex c" by auto
  from Cons obtain kcs where kcs: "m = map (\<lambda>(k, c). (k, uint8ArrayToHex c)) kcs"
      "\<forall>(k, c) \<in> set kcs. length c = 32" by auto
  have "e # m = map (\<lambda>(k, c). (k, uint8ArrayToHex c)) ((k, c) # kcs)"
    using e c kcs by simp
  moreover have "\<forall>(k', c') \<in> set ((k, c) # kcs). length c' = 32"
    using c kcs by simp
  ultimately show ?case by (intro exI[of _ "(k, c) # kcs"] conjI)
qed

lemma map_of_keys: "map_of (map (\<lambda>k. (k, f k)) ks) = (\<lambda>k. if k \<in> set ks then Some (f k) else None)"
  by (induction ks) auto

lemma assoc_list_by_keys:
  "distinct (map fst m) \<Longrightarrow> map (\<lambda>k. (k, the (map_of m k))) (map fst m) = m"
proof (induction m)
  case Nil
  show ?case by simp
next
  case (Cons e m)
  obtain k v where e: "e = (k, v)" by (cases e)
  have "map (\<lambda>k'. (k', the (map_of (e # m) k'))) (map fst m) = map (\<lambda>k'. (k', the (map_of m k'))) (map fst m)"
    using Cons.prems e by (intro map_cong) auto
  with Cons e show ?case by simp
qed

lemma split_reconstruct_pd:
  assumes ws: "public_input_witnesses a = Inr ws"
    and lt: "length (proof' pd) = 2144"
    and d: "distinct (mapKeys (publicInputs pd))"
    and keys: "set (mapKeys (publicInputs pd)) = set ws"
    and can: "list_all (\<lambda>(k, v). \<exists>c. length c = 32 \<and> v = uint8ArrayToHex c) (publicInputs pd)"
  shows "\<exists>x pd'. reconstructProofWithPublicInputs pd = Inr x \<and>
                 splitProofWithPublicInputs a x = Inr pd' \<and>
                 proof' pd' = proof' pd \<and>
                 mapKeys (publicInputs pd') = ws \<and>
                 map_of (publicInputs pd') = map_of (publicInputs pd) \<and>
                 (mapKeys (publicInputs pd) = ws \<longrightarrow> pd' = pd)"
proof -
  from canonical_values[OF can] obtain kcs where
    m: "publicInputs pd = map (\<lambda>(k, c). (k, uint8ArrayToHex c)) kcs" and
    l: "\<forall>(k, c) \<in> set kcs. length c = 32" by blast
  have fk: "map fst kcs = mapKeys (publicInputs pd)"
    by (simp add: m mapKeys_def case_prod_unfold comp_def)
  have pd: "pd = \<lparr>proof' = proof' pd, publicInputs = map (\<lambda>(k, c). (k, uint8ArrayToHex c)) kcs\<rparr>"
    using m by simp
  have d': "distinct (map fst kcs)" using d fk by simp
  have l': "\<And>k c. (k, c) \<in> set kcs \<Longrightarrow> length c = 32" using l by auto
  have keys': "set (map fst kcs) = set ws" using keys fk by simp
  let ?m' = "map (\<lambda>k. (k, uint8ArrayToHex (the (map_of kcs k)))) ws"
  let ?pd' = "\<lparr>proof' = proof' pd, publicInputs = ?m'\<rparr>"
  have rp: "reconstructProofWithPublicInputs pd =
            reconstructProofWithPublicInputs
              \<lparr>proof' = proof' pd, publicInputs = map (\<lambda>(k, c). (k, uint8ArrayToHex c)) kcs\<rparr>"
    by (rule arg_cong[OF pd])
  have "\<exists>x. reconstructProofWithPublicInputs
               \<lparr>proof' = proof' pd, publicInputs = map (\<lambda>(k, c). (k, uint8ArrayToHex c)) kcs\<rparr> = Inr x \<and>
            splitProofWithPublicInputs a x = Inr ?pd'"
  proof (rule split_reconstruct[OF ws d' _ keys' lt])
    fix k c assume "(k, c) \<in> set kcs"
    then show "length c = 32" by (rule l')
  qed
  then obtain x where
    x0: "reconstructProofWithPublicInputs
           \<lparr>proof' = proof' pd, publicInputs = map (\<lambda>(k, c). (k, uint8ArrayToHex c)) kcs\<rparr> = Inr x" and
    x2: "splitProofWithPublicInputs a x = Inr ?pd'"
    by blast
  have x1: "reconstructProofWithPublicInputs pd = Inr x"
    using x0 by (simp only: rp)
  note x = x1 x2
  have mo: "map_of (publicInputs pd) k = map_option uint8ArrayToHex (map_of kcs k)" for k
    by (simp add: m map_of_map)
  have same: "map_of ?m' = map_of (publicInputs pd)"
  proof
    fix k
    show "map_of ?m' k = map_of (publicInputs pd) k"
    proof (cases "k \<in> set ws")
      case True
      with keys' have "k \<in> fst ` set kcs" by simp
      then obtain c where "map_of kcs k = Some c"
        by (metis domD dom_map_of_conv_image_fst)
      with True show ?thesis by (simp add: map_of_keys mo)
    next
      case False
      with keys' have "k \<notin> fst ` set kcs" by simp
      then have "map_of kcs k = None" by (simp add: map_of_eq_None_iff)
      with False show ?thesis by (simp add: map_of_keys mo)
    qed
  qed
  have ks: "mapKeys ?m' = ws" by (simp add: mapKeys_def comp_def)
  have eq: "?pd' = pd" if "mapKeys (publicInputs pd) = ws"
  proof -
    have "?m' = map (\<lambda>k. (k, the (map_of ?m' k))) ws"
      by (rule nth_equalityI) (simp_all add: map_of_keys)
    also have "\<dots> = map (\<lambda>k. (k, the (map_of (publicInputs pd) k))) (map fst (publicInputs pd))"
      using that by (simp add: same mapKeys_def)
    also have "\<dots> = publicInputs pd"
      using d by (intro assoc_list_by_keys) (simp add: mapKeys_def)
    finally show ?thesis by simp
  qed
  show ?thesis
    using x same ks eq by (intro exI[of _ x] exI[of _ ?pd']) simp
qed

lemma example_witnesses: "public_input_witnesses exampleAbi = Inr [10, 2]"
  by code_simp

lemma example_sort: "defaultSort [2, 10] = [10, 2]" "defaultSort [10, 2] = [10, 2]"
  by code_simp+

lemma example_split:
  "splitProofWithPublicInputs exampleAbi exampleProofWithPublicInputs =
     Inr \<lparr>proof' = replicate 2144 1,
          publicInputs = [(10, uint8ArrayToHex (replicate 32 7)), (2, uint8ArrayToHex (replicate 32 9))]\<rparr>"
proof -
  have long: "2144 \<le> length exampleProofWithPublicInputs"
    by (simp add: exampleProofWithPublicInputs_def)
  have up: "[0..<length [10, 2 :: nat]] = [0, 1]"
    by (simp add: upt_conv_Cons)
  show ?thesis
    unfolding splitProofWithPublicInputs_long[OF long example_witnesses] up
    by (simp add: exampleProofWithPublicInputs_def)
qed

lemma example_reconstruct:
  "reconstructProofWithPublicInputs
     \<lparr>proof' = tail,
      publicInputs = [(2, uint8ArrayToHex (replicate 32 9)), (10, uint8ArrayToHex (replicate 32 7))]\<rparr> =
   Inr (replicate 32 7 @ replicate 32 9 @ tail)"
proof -
  have "reconstructProofWithPublicInputs
          \<lparr>proof' = tail,
           publicInputs = map (\<lambda>(k, c). (k, uint8ArrayToHex c)) [(2, replicate 32 9), (10, replicate 32 7)]\<rparr> =
        Inr (concat (map (\<lambda>k. the (map_of [(2, replicate 32 9), (10, replicate 32 (7::byte))] k))
                     (defaultSort (map fst [(2 :: nat, replicate 32 (9::byte)), (10, replicate 32 7)]))) @ tail)"
    by (rule reconstruct_canonical) auto
  then show ?thesis by (simp add: example_sort)
qed

lemma example_reconstruct_sorted:
  "reconstructProofWithPublicInputs
     \<lparr>proof' = tail,
      publicInputs = [(10, uint8ArrayToHex (replicate 32 7)), (2, uint8ArrayToHex (replicate 32 9))]\<rparr> =
   Inr (replicate 32 7 @ replicate 32 9 @ tail)"
proof -
  have "reconstructProofWithPublicInputs
          \<lparr>proof' = tail,
           publicInputs = map (\<lambda>(k, c). (k, uint8ArrayToHex c)) [(10, replicate 32 7), (2, replicate 32 9)]\<rparr> =
        Inr (concat (map (\<lambda>k. the (map_of [(10, replicate 32 7), (2, replicate 32 (9::byte))] k))
                     (defaultSort (map fst [(10 :: nat, replicate 32 (7::byte)), (2, replicate 32 9)]))) @ tail)"
    by (rule reconstruct_canonical) auto
  then show ?thesis by (simp add: example_sort)
qed

text \<open>
  C2 fails on the code. The comment in \<^verbatim>\<open>generateProof\<close> says that the witness indices are
  sorted in ascending order, and the sort has no comparison function: the indices are compared
  as decimal strings. With a public parameter at witness 2 and a return value at witness 10
  the traversal is 10 before 2, in \<^verbatim>\<open>generateProof\<close> and in
  \<^verbatim>\<open>reconstructProofWithPublicInputs\<close>, where the bytes of witness 10 come first.
\<close>

theorem public_inputs_not_ascending:
  "public_input_witnesses exampleAbi = Inr [10, 2] \<and>
   reconstructProofWithPublicInputs
     \<lparr>proof' = [],
      publicInputs = [(2, uint8ArrayToHex (replicate 32 9)), (10, uint8ArrayToHex (replicate 32 7))]\<rparr> =
   Inr (replicate 32 7 @ replicate 32 9)"
  using example_witnesses example_reconstruct[of "[]"] by simp

lemma generateProof_Inr:
  assumes "generateProof N w f b calls = (Inr pd, b', calls')"
  shows "\<exists>c call x. calls' = c @ [call] \<and> acirCreateProof N c call = Inr x \<and>
           splitProofWithPublicInputs (abi (acirCircuit b')) x = Inr pd"
  using assms
  by (auto simp: generateProof_def invoke_def split: prod.splits sum.splits option.splits)

lemma split_tail_independent:
  assumes ws: "public_input_witnesses a = Inr ws" and len: "2144 \<le> length x"
    and s: "splitProofWithPublicInputs a x = Inr pd" and t: "length t = 2144"
  shows "splitProofWithPublicInputs a (take (length x - 2144) x @ t) =
           Inr \<lparr>proof' = t, publicInputs = publicInputs pd\<rparr>"
proof -
  let ?p = "take (length x - 2144) x"
  have lp: "length ?p = length x - 2144" using len by simp
  have long: "2144 \<le> length (?p @ t)" using t by simp
  have l2: "length (?p @ t) - 2144 = length x - 2144" using t lp by simp
  have tk: "take (length x - 2144) (?p @ t) = ?p" using lp by simp
  have dr: "drop (length x - 2144) (?p @ t) = t" using lp by simp
  show ?thesis
    using s
    unfolding splitProofWithPublicInputs_long[OF long ws] splitProofWithPublicInputs_long[OF len ws]
      l2 tk dr
    by (auto split: if_splits)
qed

text \<open>
  C4. When \<^verbatim>\<open>generateProof\<close> returns, its last native call was \<^verbatim>\<open>acirCreateProof\<close>; for the
  buffer \<open>x\<close> that the call returned, of at least 2144 bytes, the proof is the last 2144 bytes
  of \<open>x\<close>, the value of the \<open>j\<close>-th public witness is the hexadecimal string of the \<open>j\<close>-th
  chunk of 32 bytes of the bytes before them, and any other 2144 bytes behind the same prefix
  give the same public inputs.
\<close>

theorem generateProof_splits_at_tail:
  assumes "generateProof N w f b calls = (Inr pd, b', calls')"
  shows "\<exists>c call x ws.
           calls' = c @ [call] \<and> acirCreateProof N c call = Inr x \<and>
           public_input_witnesses (abi (acirCircuit b')) = Inr ws \<and>
           (2144 \<le> length x \<longrightarrow>
              proof' pd = drop (length x - 2144) x \<and>
              publicInputs pd =
                map (\<lambda>j. (ws ! j, uint8ArrayToHex (take 32 (drop (32 * j) (take (length x - 2144) x)))))
                  [0..<length ws] \<and>
              (\<forall>t. length t = 2144 \<longrightarrow>
                 splitProofWithPublicInputs (abi (acirCircuit b')) (take (length x - 2144) x @ t) =
                   Inr \<lparr>proof' = t, publicInputs = publicInputs pd\<rparr>))"
proof -
  from generateProof_Inr[OF assms] obtain c call x where
    c: "calls' = c @ [call]" "acirCreateProof N c call = Inr x" and
    s: "splitProofWithPublicInputs (abi (acirCircuit b')) x = Inr pd"
    by blast
  from s obtain ws where ws: "public_input_witnesses (abi (acirCircuit b')) = Inr ws"
    by (auto simp: splitProofWithPublicInputs_def Let_def split: sum.splits)
  have "proof' pd = drop (length x - 2144) x \<and>
        publicInputs pd =
          map (\<lambda>j. (ws ! j, uint8ArrayToHex (take 32 (drop (32 * j) (take (length x - 2144) x)))))
            [0..<length ws]" if "2144 \<le> length x"
    using s unfolding splitProofWithPublicInputs_long[OF that ws]
    by (auto split: if_splits)
  moreover have "\<forall>t. length t = 2144 \<longrightarrow>
                 splitProofWithPublicInputs (abi (acirCircuit b')) (take (length x - 2144) x @ t) =
                   Inr \<lparr>proof' = t, publicInputs = publicInputs pd\<rparr>" if "2144 \<le> length x"
    using split_tail_independent[OF ws that s] by blast
  ultimately show ?thesis using c ws by blast
qed

lemma example_generateProof:
  "generateProof exampleNative [] False exampleBackend [] =
     (Inr \<lparr>proof' = replicate 2144 1,
           publicInputs = [(10, uint8ArrayToHex (replicate 32 7)), (2, uint8ArrayToHex (replicate 32 9))]\<rparr>,
      exampleInstantiated,
      exampleSetupCalls @ [AcirCreateProof 1 (Some 2) [10, 11, 12] [] False])"
proof -
  have a: "abi (acirCircuit exampleInstantiated) = exampleAbi"
    by (simp add: exampleInstantiated_def exampleBackend_def exampleCircuit_def)
  have c: "acirCreateProof exampleNative = (\<lambda>calls c. Inr exampleProofWithPublicInputs)"
    and g: "gunzip exampleNative = (\<lambda>w. Inr w)"
    by (simp_all add: exampleNative_def)
  show ?thesis
    unfolding generateProof_def instantiate_example
    by (simp add: a c g invoke_def example_split exampleInstantiated_def exampleBackend_def
          exampleCircuit_def)
qed

theorem generateProof_splits_at_tail_witness:
  "generateProof exampleNative [] False exampleBackend [] =
     (Inr \<lparr>proof' = replicate 2144 1,
           publicInputs = [(10, uint8ArrayToHex (replicate 32 7)), (2, uint8ArrayToHex (replicate 32 9))]\<rparr>,
      exampleInstantiated,
      exampleSetupCalls @ [AcirCreateProof 1 (Some 2) [10, 11, 12] [] False]) \<and>
   2144 \<le> length exampleProofWithPublicInputs \<and>
   replicate 2144 (1 :: byte) = drop (length exampleProofWithPublicInputs - 2144) exampleProofWithPublicInputs"
proof -
  let ?pd = "\<lparr>proof' = replicate 2144 1,
           publicInputs = [(10, uint8ArrayToHex (replicate 32 7)), (2, uint8ArrayToHex (replicate 32 9))]\<rparr>"
  from generateProof_splits_at_tail [OF example_generateProof]
  obtain c call x where
    x: "acirCreateProof exampleNative c call = Inr x" and
    p: "2144 \<le> length x \<longrightarrow> proof' ?pd = drop (length x - 2144) x"
    by blast
  from x have "x = exampleProofWithPublicInputs" by (simp add: exampleNative_def)
  moreover have "2144 \<le> length exampleProofWithPublicInputs"
    by (simp add: exampleProofWithPublicInputs_def)
  ultimately show ?thesis using p example_generateProof by simp
qed

lemma roundtrip_short_proof:
  "reconstructProofWithPublicInputs
     \<lparr>proof' = [5],
      publicInputs = [(10, uint8ArrayToHex (replicate 32 7)), (2, uint8ArrayToHex (replicate 32 9))]\<rparr> =
   Inr (replicate 32 7 @ replicate 32 9 @ [5]) \<and>
   splitProofWithPublicInputs exampleAbi (replicate 32 7 @ replicate 32 9 @ [5]) = Inl TypeError"
proof -
  have "typedArraySlice (replicate 32 7 @ replicate 32 9 @ [5 :: byte]) 0
          (int (length (replicate 32 7 @ replicate 32 9 @ [5 :: byte])) - int numBytesInProofWithoutPublicInputs) = []"
    by (simp add: typedArraySlice_def relativeIndex_def numBytesInProofWithoutPublicInputs_def)
  then have "splitProofWithPublicInputs exampleAbi (replicate 32 7 @ replicate 32 9 @ [5]) = Inl TypeError"
    unfolding splitProofWithPublicInputs_def Let_def example_witnesses
    by (simp add: chunkLoop_done)
  with example_reconstruct_sorted[of "[5]"] show ?thesis by simp
qed

lemma length_uint8ArrayToHex: "length (uint8ArrayToHex c) = 2 + 2 * length c"
  by (induction c) (simp_all add: uint8ArrayToHex_def byteToHex_digits)

lemma hexToUint8Array_small:
  assumes "StringToBigInt s = Some (int n)" "n < 256"
  shows "hexToUint8Array s = Inr (replicate 31 0 @ [word_of_nat n])"
proof -
  have b: "int n < 2 ^ 256" using assms(2) by simp
  obtain u where u: "hexToUint8Array s = Inr u" "length u = 32" "be_value u = n"
    using hexToUint8Array_fits[OF assms(1) _ b] by auto
  have "unat (word_of_nat n :: byte) = n"
    using assms(2) by (intro of_nat_inverse) simp_all
  then have "be_value (replicate 31 0 @ [word_of_nat n]) = n"
    by (simp add: be_value_snoc) (simp add: be_value_def foldl_bytes_zeros)
  with u have "u = replicate 31 0 @ [word_of_nat n]"
    by (intro be_value_inj) simp_all
  with u show ?thesis by simp
qed

lemma example_hex_short:
  "hexToUint8Array ''0x7'' = Inr (replicate 31 0 @ [7])"
  "hexToUint8Array ''0x9'' = Inr (replicate 31 0 @ [9])"
proof -
  have "StringToBigInt ''0x7'' = Some (int 7)" "StringToBigInt ''0x9'' = Some (int 9)"
    by (simp_all add: StringToBigInt_def trimString_def isWhiteSpace_def digitsLiteral_def digitValue_def)
  from hexToUint8Array_small[OF this(1)] hexToUint8Array_small[OF this(2)]
  show "hexToUint8Array ''0x7'' = Inr (replicate 31 0 @ [7])"
    "hexToUint8Array ''0x9'' = Inr (replicate 31 0 @ [9])"
    by simp_all
qed

lemma roundtrip_changes_values:
  "reconstructProofWithPublicInputs
     \<lparr>proof' = replicate 2144 1, publicInputs = [(10, ''0x7''), (2, ''0x9'')]\<rparr> =
     Inr ((replicate 31 0 @ [7]) @ (replicate 31 0 @ [9]) @ replicate 2144 1) \<and>
   splitProofWithPublicInputs exampleAbi
     ((replicate 31 0 @ [7]) @ (replicate 31 0 @ [9]) @ replicate 2144 1) =
     Inr \<lparr>proof' = replicate 2144 1,
          publicInputs = [(10, uint8ArrayToHex (replicate 31 0 @ [7])),
                          (2, uint8ArrayToHex (replicate 31 0 @ [9]))]\<rparr> \<and>
   length (uint8ArrayToHex (replicate 31 0 @ [7])) = 66 \<and> length ''0x7'' = 3"
proof -
  let ?x = "(replicate 31 0 @ [7]) @ (replicate 31 0 @ [9]) @ replicate 2144 (1 :: byte)"
  have r: "reconstructProofWithPublicInputs
     \<lparr>proof' = replicate 2144 1, publicInputs = [(10, ''0x7''), (2, ''0x9'')]\<rparr> = Inr ?x"
    by (simp add: reconstructProofWithPublicInputs_def mapKeys_def mapGet_def example_sort
          example_hex_short flattenUint8Arrays_concat)
  have long: "2144 \<le> length ?x" by simp
  have up: "[0..<length [10, 2 :: nat]] = [0, 1]"
    by (simp add: upt_conv_Cons)
  have s: "splitProofWithPublicInputs exampleAbi ?x =
     Inr \<lparr>proof' = replicate 2144 1,
          publicInputs = [(10, uint8ArrayToHex (replicate 31 0 @ [7])),
                          (2, uint8ArrayToHex (replicate 31 0 @ [9]))]\<rparr>"
    unfolding splitProofWithPublicInputs_long[OF long example_witnesses] up
    by simp
  show ?thesis using r s by (simp add: length_uint8ArrayToHex)
qed

text \<open>
  C1 as stated fails, for a proof that is not 2144 bytes long and for a witness map whose
  values are not the strings that \<^verbatim>\<open>uint8ArrayToHex\<close> writes: a proof of one byte makes the
  splitting throw a TypeError, and the value \<^verbatim>\<open>0x7\<close> comes back as the string of 66
  characters.
\<close>

theorem roundtrip_not_for_every_proof_data:
  "(reconstructProofWithPublicInputs
      \<lparr>proof' = [5],
       publicInputs = [(10, uint8ArrayToHex (replicate 32 7)), (2, uint8ArrayToHex (replicate 32 9))]\<rparr> =
    Inr (replicate 32 7 @ replicate 32 9 @ [5]) \<and>
    splitProofWithPublicInputs exampleAbi (replicate 32 7 @ replicate 32 9 @ [5]) = Inl TypeError) \<and>
   (reconstructProofWithPublicInputs
      \<lparr>proof' = replicate 2144 1, publicInputs = [(10, ''0x7''), (2, ''0x9'')]\<rparr> =
      Inr ((replicate 31 0 @ [7]) @ (replicate 31 0 @ [9]) @ replicate 2144 1) \<and>
    splitProofWithPublicInputs exampleAbi
      ((replicate 31 0 @ [7]) @ (replicate 31 0 @ [9]) @ replicate 2144 1) =
      Inr \<lparr>proof' = replicate 2144 1,
           publicInputs = [(10, uint8ArrayToHex (replicate 31 0 @ [7])),
                           (2, uint8ArrayToHex (replicate 31 0 @ [9]))]\<rparr> \<and>
    length (uint8ArrayToHex (replicate 31 0 @ [7])) = 66 \<and> length ''0x7'' = 3)"
  using roundtrip_short_proof roundtrip_changes_values by (rule conjI)

text \<open>
  C1, amended. Let \<open>ws\<close> be the public witness indices of the circuit, in the order of the
  default sort. A combined buffer of 32 bytes for each index and 2144 bytes more is split and
  reassembled into itself. A proof of 2144 bytes and a witness map whose keys are the indices
  \<open>ws\<close> and whose values are hexadecimal strings of 32 bytes as \<^verbatim>\<open>uint8ArrayToHex\<close> writes
  them are reassembled and split into the same proof and the same value for each index, the
  entries in the order of \<open>ws\<close>: into the same proof data when the map was in that order.
\<close>

theorem split_reconstruct_roundtrip:
  assumes "public_input_witnesses a = Inr ws"
  shows "(length x = 32 * length ws + 2144 \<longrightarrow>
            (\<exists>pd. splitProofWithPublicInputs a x = Inr pd \<and>
                  reconstructProofWithPublicInputs pd = Inr x)) \<and>
         (length (proof' pd) = 2144 \<and> distinct (mapKeys (publicInputs pd)) \<and>
          set (mapKeys (publicInputs pd)) = set ws \<and>
          list_all (\<lambda>(k, v). \<exists>c. length c = 32 \<and> v = uint8ArrayToHex c) (publicInputs pd) \<longrightarrow>
            (\<exists>x' pd'. reconstructProofWithPublicInputs pd = Inr x' \<and>
                      splitProofWithPublicInputs a x' = Inr pd' \<and>
                      proof' pd' = proof' pd \<and>
                      mapKeys (publicInputs pd') = ws \<and>
                      map_of (publicInputs pd') = map_of (publicInputs pd) \<and>
                      (mapKeys (publicInputs pd) = ws \<longrightarrow> pd' = pd)))"
  using reconstruct_split[OF assms] split_reconstruct_pd[OF assms] by blast

theorem split_reconstruct_roundtrip_witness:
  "public_input_witnesses exampleAbi = Inr [10, 2] \<and>
   length exampleProofWithPublicInputs = 32 * length [10, 2 :: nat] + 2144 \<and>
   splitProofWithPublicInputs exampleAbi exampleProofWithPublicInputs =
     Inr \<lparr>proof' = replicate 2144 1,
          publicInputs = [(10, uint8ArrayToHex (replicate 32 7)), (2, uint8ArrayToHex (replicate 32 9))]\<rparr> \<and>
   reconstructProofWithPublicInputs
     \<lparr>proof' = replicate 2144 1,
      publicInputs = [(10, uint8ArrayToHex (replicate 32 7)), (2, uint8ArrayToHex (replicate 32 9))]\<rparr> =
     Inr exampleProofWithPublicInputs"
proof -
  have l: "length exampleProofWithPublicInputs = 32 * length [10, 2 :: nat] + 2144"
    by (simp add: exampleProofWithPublicInputs_def)
  from split_reconstruct_roundtrip [OF example_witnesses, of exampleProofWithPublicInputs] l
  obtain pd where "splitProofWithPublicInputs exampleAbi exampleProofWithPublicInputs = Inr pd"
    "reconstructProofWithPublicInputs pd = Inr exampleProofWithPublicInputs"
    by blast
  then show ?thesis using example_split example_witnesses l by simp
qed

end
